theory Spec2Isabelle
  imports Main "HOL-Library.Word"
begin

section \<open>Bytes, big integers and hashes\<close>

text \<open>
  A Go \<^verbatim>\<open>[]byte\<close> is a list of 8-bit words; the nil slice and the empty slice are both
  the empty list (the code below only reads slices, where Go does not tell them apart).
  \<^verbatim>\<open>common.Hash\<close> is \<^verbatim>\<open>[32]byte\<close>, read here as one 256-bit word (big-endian).
  \<^verbatim>\<open>*big.Int\<close> values are unbounded integers.
\<close>

type_synonym bytes = "8 word list"
type_synonym hash = "256 word"

definition HashLength :: nat where
  "HashLength = 32"

text \<open>
  \<^verbatim>\<open>new(big.Int).SetBytes(b)\<close>: the bytes read as a big-endian unsigned number; the empty
  (or nil) slice gives 0.
\<close>

fun SetBytes_from :: "int \<Rightarrow> bytes \<Rightarrow> int" where
  "SetBytes_from acc [] = acc"
| "SetBytes_from acc (b # bs) = SetBytes_from (acc * 256 + uint b) bs"

definition SetBytes :: "bytes \<Rightarrow> int" where
  "SetBytes b = SetBytes_from 0 b"

text \<open>
  \<^verbatim>\<open>common.BytesToHash(b)\<close>: the last 32 bytes of \<open>b\<close>, left-padded with zero bytes when
  \<open>b\<close> is shorter. On the 256-bit reading this is the big-endian value of \<open>b\<close> modulo
  \<open>2 ^ 256\<close>.
\<close>

definition BytesToHash :: "bytes \<Rightarrow> hash" where
  "BytesToHash b = word_of_int (SetBytes b)"

section \<open>The state read by the dump (tomox\_state/dump.go)\<close>

text \<open>
  A trie is represented by the sequence of leaves \<open>(Key, Value)\<close> that
  \<^verbatim>\<open>trie.NewIterator(t.NodeIterator(nil))\<close> yields, in the order it yields them.
\<close>

type_synonym Trie = "(bytes \<times> bytes) list"

datatype side = Ask | Bid

text \<open>The decoded price-level value (\<^verbatim>\<open>var data orderList\<close>): aggregate volume and queue root.\<close>

record orderList =
  Volume :: int
  Root :: hash

text \<open>
  The exchange object of one order book, as far as the dump reads it: the trie returned by
  \<^verbatim>\<open>getAsksTrie(self.db)\<close> and the one returned by \<^verbatim>\<open>getBidsTrie(self.db)\<close>.
\<close>

record stateExchanges =
  asksTrie :: Trie
  bidsTrie :: Trie

text \<open>
  \<^verbatim>\<open>TomoXStateDB\<close>, as far as the dump reads it.
  \<^item> \<open>stateExhangeObjects\<close>: what \<^verbatim>\<open>getStateExchangeObject\<close> finds for an order-book id
    (\<open>None\<close> is the nil object);
  \<^item> \<open>preimages\<close>: the key preimage registry behind \<^verbatim>\<open>self.trie.GetKey\<close>;
  \<^item> \<open>orderListTries\<close>: the trie returned by
    \<^verbatim>\<open>newStateOrderList(self, side, orderBook, priceHash, data, nil).getTrie(self.db)\<close>,
    taken as a parameter of the state: it may depend on each argument of the constructor.
\<close>

record TomoXStateDB =
  stateExhangeObjects :: "hash \<rightharpoonup> stateExchanges"
  preimages :: "bytes \<rightharpoonup> bytes"
  orderListTries :: "side \<Rightarrow> hash \<Rightarrow> hash \<Rightarrow> orderList \<Rightarrow> Trie"

definition getStateExchangeObject :: "TomoXStateDB \<Rightarrow> hash \<Rightarrow> stateExchanges option" where
  "getStateExchangeObject self orderBook = stateExhangeObjects self orderBook"

text \<open>
  Modelled from the spec: \<^verbatim>\<open>GetKey\<close> of the trie package is not part of the sources at hand.
  The spec (4.2) gives \<^verbatim>\<open>resolve(storageKey) -> semanticKeyBytes | absent\<close>; the call site
  (dump.go, \<^verbatim>\<open>priceByte := self.trie.GetKey(it.Key)\<close>) receives one \<^verbatim>\<open>[]byte\<close> and no error,
  so an absent preimage is the nil slice.
\<close>

definition GetKey :: "TomoXStateDB \<Rightarrow> bytes \<Rightarrow> bytes" where
  "GetKey self shaKey = (case preimages self shaKey of None \<Rightarrow> [] | Some key \<Rightarrow> key)"

text \<open>
  The two errors built by \<^verbatim>\<open>fmt.Errorf\<close> in dump.go, with the values formatted into
  their messages:
  \<^item> \<^verbatim>\<open>"Order book not found orderBook : %v "\<close> with \<^verbatim>\<open>orderBook.Hex()\<close>;
  \<^item> \<^verbatim>\<open>"Fail when decode order iist orderBook : %v ,price :%v "\<close> with \<^verbatim>\<open>orderBook.Hex()\<close>
    and \<^verbatim>\<open>price\<close>.
\<close>

datatype error =
    OrderBookNotFound hash
  | FailDecodeOrderList hash int

text \<open>
  \<^verbatim>\<open>DumpOrderList\<close>. Its \<^verbatim>\<open>Orders\<close> field and the result of a dump are Go maps keyed by
  \<^verbatim>\<open>*big.Int\<close>, that is by pointer identity. Every key the dump inserts is freshly
  allocated by \<^verbatim>\<open>new(big.Int)\<close>, so no insertion overwrites an earlier one: the map holds
  exactly one entry per insertion. A Go map has no iteration order of its own; the model
  is the sequence of insertions, each key given by the number it points to.
\<close>

record DumpOrderList =
  Volume :: int
  Orders :: "(int \<times> int) list"

type_synonym dump = "(int \<times> DumpOrderList) list"

text \<open>The inner loop \<^verbatim>\<open>for orderListIt.Next() { dumpOrderList.Orders[...] = ... }\<close>.\<close>

fun dumpOrders :: "TomoXStateDB \<Rightarrow> Trie \<Rightarrow> (int \<times> int) list \<Rightarrow> (int \<times> int) list" where
  "dumpOrders self [] orders = orders"
| "dumpOrders self ((Key, Value) # orderListIt) orders =
     dumpOrders self orderListIt (orders @ [(SetBytes (GetKey self Key), SetBytes Value)])"

text \<open>
  The outer loop \<^verbatim>\<open>for it.Next() { ... }\<close> of \<^verbatim>\<open>DumpAskTrie\<close> and \<^verbatim>\<open>DumpBidTrie\<close>; the two
  bodies differ only in the side handed to \<^verbatim>\<open>newStateOrderList\<close>. \<open>decode\<close> is
  \<^verbatim>\<open>rlp.DecodeBytes\<close> into an \<^verbatim>\<open>orderList\<close> (\<open>None\<close> when it returns an error), a parameter.
\<close>

fun dumpLoop :: "(bytes \<Rightarrow> orderList option) \<Rightarrow> TomoXStateDB \<Rightarrow> side \<Rightarrow> hash \<Rightarrow> Trie \<Rightarrow> dump
    \<Rightarrow> error + dump" where
  "dumpLoop decode self sd orderBook [] result = Inr result"
| "dumpLoop decode self sd orderBook ((Key, Value) # it) result =
     (let priceByte = GetKey self Key;
          price = SetBytes priceByte
      in case decode Value of
           None \<Rightarrow> Inl (FailDecodeOrderList orderBook price)
         | Some data \<Rightarrow>
             (let orderListTrie = orderListTries self sd orderBook (BytesToHash priceByte) data;
                  dumpOrderList = \<lparr>Volume = orderList.Volume data,
                                   Orders = dumpOrders self orderListTrie []\<rparr>
              in dumpLoop decode self sd orderBook it (result @ [(price, dumpOrderList)])))"

definition DumpAskTrie :: "(bytes \<Rightarrow> orderList option) \<Rightarrow> TomoXStateDB \<Rightarrow> hash \<Rightarrow> error + dump" where
  "DumpAskTrie decode self orderBook =
     (case getStateExchangeObject self orderBook of
        None \<Rightarrow> Inl (OrderBookNotFound orderBook)
      | Some exhangeObject \<Rightarrow> dumpLoop decode self Ask orderBook (asksTrie exhangeObject) [])"

definition DumpBidTrie :: "(bytes \<Rightarrow> orderList option) \<Rightarrow> TomoXStateDB \<Rightarrow> hash \<Rightarrow> error + dump" where
  "DumpBidTrie decode self orderBook =
     (case getStateExchangeObject self orderBook of
        None \<Rightarrow> Inl (OrderBookNotFound orderBook)
      | Some exhangeObject \<Rightarrow> dumpLoop decode self Bid orderBook (bidsTrie exhangeObject) [])"

section \<open>Order of keys and of dumps\<close>

text \<open>
  Modelled from the spec: the iterator of the trie package is not part of the sources at
  hand. The spec (4.4) has a snapshot "produced by iterating the book's trie in ascending
  price order, and for every price, iterating that price's OrderQueue in ascending
  order-id order". The price or order id of a stored key is the number the key encodes
  (the test stores \<^verbatim>\<open>common.BigToHash(big.NewInt(1)).Bytes()\<close>): a trie iterates in ascending
  order when its leaves come in strictly ascending order of these numbers.
\<close>

definition iteratesAscending :: "Trie \<Rightarrow> bool" where
  "iteratesAscending t = sorted_wrt (\<lambda>k k'. SetBytes k < SetBytes k') (map fst t)"

text \<open>
  No preimage-registry miss on a trie: every stored key has a registered preimage, the
  bytes of the number the key encodes (4.2: registered when \<^verbatim>\<open>update\<close> writes the key).
\<close>

definition resolvesKeys :: "TomoXStateDB \<Rightarrow> Trie \<Rightarrow> bool" where
  "resolvesKeys self t =
     (\<forall>(k, v) \<in> set t.
        case preimages self k of None \<Rightarrow> False | Some key \<Rightarrow> SetBytes key = SetBytes k)"

text \<open>
  The order-list tries that a dump opens while it walks the trie \<open>t\<close> of a side, one for
  each leaf whose value decodes.
\<close>

definition openedTries ::
    "(bytes \<Rightarrow> orderList option) \<Rightarrow> TomoXStateDB \<Rightarrow> side \<Rightarrow> hash \<Rightarrow> Trie \<Rightarrow> Trie list" where
  "openedTries decode self sd orderBook t =
     map (\<lambda>(k, v). orderListTries self sd orderBook (BytesToHash (GetKey self k))
                      (the (decode v))) t"

text \<open>
  A dump whose price entries were inserted in ascending numeric price order and whose
  orders, under each price, were inserted in ascending numeric order-id order.
\<close>

definition ascendingDump :: "dump \<Rightarrow> bool" where
  "ascendingDump snap =
     (sorted_wrt (<) (map fst snap) \<and>
      (\<forall>(price, d) \<in> set snap. sorted_wrt (<) (map fst (Orders d))))"

section \<open>The ordered trie of the spec (4.1)\<close>

text \<open>
  Modelled from the spec: \<^verbatim>\<open>TryUpdate\<close>, \<^verbatim>\<open>TryDelete\<close>, \<^verbatim>\<open>TryGetBestLeftKeyAndValue\<close> and
  \<^verbatim>\<open>TryGetBestRightKeyAndValue\<close> are called by tomox\_trie\_test.go but defined in the trie
  package, which is not part of the sources at hand. The spec (4.1) gives their contract:
  \<^item> \<^verbatim>\<open>get(key) -> value | absent\<close>;
  \<^item> \<^verbatim>\<open>update(key, value)\<close>: inserts or overwrites;
  \<^item> \<^verbatim>\<open>delete(key)\<close>: removes key if present; no-op, not an error, if key absent;
  \<^item> \<^verbatim>\<open>bestLeft()\<close> / \<^verbatim>\<open>bestRight()\<close>: the entry with the smallest / largest semantic key
    currently present, or absent; "defined purely in terms of a traversal that compares
    recovered semantic keys".
  The trie is its sequence of leaves; \<^verbatim>\<open>update\<close> keeps the leaves ordered by key. The
  semantic key of a stored key is the number it encodes (the test stores
  \<^verbatim>\<open>common.BigToHash(big.NewInt(1)).Bytes()\<close>). The operations are written for leaves
  of any value type: the byte strings of a stored trie, or the decoded values of the
  book of the spec below. \<open>keyLess\<close> compares two stored keys byte by byte, a proper
  prefix first, as \<^verbatim>\<open>bytes.Compare\<close> does; \<^verbatim>\<open>update\<close> places a new leaf by it. On keys of
  one width, such as the 32-byte keys of the test, it is the order of the numbers the
  keys encode.
\<close>

datatype trieError = EncodingError | TrieOpenError

fun keyLess :: "bytes \<Rightarrow> bytes \<Rightarrow> bool" where
  "keyLess [] [] = False"
| "keyLess [] (y # ys) = True"
| "keyLess (x # xs) [] = False"
| "keyLess (x # xs) (y # ys) = (x < y \<or> (x = y \<and> keyLess xs ys))"

definition TryGet :: "(bytes \<times> 'v) list \<Rightarrow> bytes \<Rightarrow> 'v option" where
  "TryGet t key = map_of t key"

fun TryUpdate :: "bytes \<Rightarrow> 'v \<Rightarrow> (bytes \<times> 'v) list \<Rightarrow> (bytes \<times> 'v) list" where
  "TryUpdate key val [] = [(key, val)]"
| "TryUpdate key val ((k, v) # t) =
     (if key = k then (key, val) # t
      else if keyLess key k then (key, val) # (k, v) # t
      else (k, v) # TryUpdate key val t)"

definition TryDelete ::
    "bytes \<Rightarrow> (bytes \<times> 'v) list \<Rightarrow> (bytes \<times> 'v) list \<times> trieError option" where
  "TryDelete key t = (filter (\<lambda>(k, v). k \<noteq> key) t, None)"

fun bestLeftFrom :: "bytes \<times> bytes \<Rightarrow> Trie \<Rightarrow> bytes \<times> bytes" where
  "bestLeftFrom best [] = best"
| "bestLeftFrom best (e # es) =
     bestLeftFrom (if SetBytes (fst e) < SetBytes (fst best) then e else best) es"

fun bestRightFrom :: "bytes \<times> bytes \<Rightarrow> Trie \<Rightarrow> bytes \<times> bytes" where
  "bestRightFrom best [] = best"
| "bestRightFrom best (e # es) =
     bestRightFrom (if SetBytes (fst best) < SetBytes (fst e) then e else best) es"

definition TryGetBestLeftKeyAndValue :: "Trie \<Rightarrow> (bytes \<times> bytes) option" where
  "TryGetBestLeftKeyAndValue t = (case t of [] \<Rightarrow> None | e # es \<Rightarrow> Some (bestLeftFrom e es))"

definition TryGetBestRightKeyAndValue :: "Trie \<Rightarrow> (bytes \<times> bytes) option" where
  "TryGetBestRightKeyAndValue t = (case t of [] \<Rightarrow> None | e # es \<Rightarrow> Some (bestRightFrom e es))"

section \<open>The write path of the spec (4.3 to 4.5)\<close>

text \<open>
  Modelled from the spec: \<^verbatim>\<open>common.BigToHash\<close> and \<^verbatim>\<open>Hash.Bytes\<close> are used by
  tomox\_trie\_test.go to build trie keys and \<^verbatim>\<open>big.Int.Bytes\<close> is the counterpart of
  \<^verbatim>\<open>SetBytes\<close>; none is defined in the sources at hand. \<open>encodeBE w n\<close> is the big-endian
  encoding of \<open>n\<close> on \<open>w\<close> bytes (of \<open>n\<close> modulo \<open>256 ^ w\<close>); \<open>HashBytes\<close> gives the 32
  bytes of a hash; \<open>BigToHash\<close> is \<^verbatim>\<open>BytesToHash(b.Bytes())\<close>; \<open>BigBytes\<close> gives the
  big-endian bytes of the absolute value, without leading zero bytes.
\<close>

fun encodeBE :: "nat \<Rightarrow> nat \<Rightarrow> bytes" where
  "encodeBE 0 n = []"
| "encodeBE (Suc w) n = encodeBE w (n div 256) @ [of_nat (n mod 256)]"

definition HashBytes :: "hash \<Rightarrow> bytes" where
  "HashBytes h = encodeBE HashLength (unat h)"

definition BigToHash :: "int \<Rightarrow> hash" where
  "BigToHash b = word_of_int \<bar>b\<bar>"

fun NatBytes :: "nat \<Rightarrow> bytes" where
  "NatBytes n = (if n = 0 then [] else NatBytes (n div 256) @ [of_nat (n mod 256)])"

declare NatBytes.simps [simp del]

definition BigBytes :: "int \<Rightarrow> bytes" where
  "BigBytes b = NatBytes (nat \<bar>b\<bar>)"

text \<open>
  Modelled from the spec: the write operations of a price-level book (4.4) and the
  external encode, decode and commit operations (6) are not part of the sources at hand.
  \<^item> An order queue (4.3) maps the order id to the remaining volume, "encoded as an
    arbitrary-precision unsigned integer"; an order whose volume is not positive is
    deleted, not stored.
  \<^item> \<^verbatim>\<open>upsertOrder(price, orderId, volumeDelta)\<close> "opens (creating if absent) the
    OrderQueue for price; updates the order entry's volume; recomputes and writes back
    the price level's aggregate volume; if resulting order volume <= 0, deletes the
    order entry instead. If the price level's aggregate volume becomes 0 after the
    update, the price-level entry itself is deleted from the book."
  \<^item> \<^verbatim>\<open>removeOrder(price, orderId)\<close> "deletes the order from its queue, decrements
    aggregate volume accordingly, deletes the price level if aggregate becomes 0."
  Both are one step \<open>setOrder\<close> that differs in the new volume of the order, a function
  \<open>f\<close> of the old one (0 when the order is absent).
\<close>

definition queueVolume :: "Trie \<Rightarrow> int" where
  "queueVolume queue = sum_list (map (\<lambda>(k, b). SetBytes b) queue)"

definition queueSetOrder :: "Trie \<Rightarrow> bytes \<Rightarrow> (int \<Rightarrow> int) \<Rightarrow> Trie" where
  "queueSetOrder queue orderKey f =
     (let old = (case TryGet queue orderKey of None \<Rightarrow> 0 | Some b \<Rightarrow> SetBytes b);
          new = f old
      in if new \<le> 0 then fst (TryDelete orderKey queue)
         else TryUpdate orderKey (BigBytes new) queue)"

text \<open>
  The book of one side as the spec describes it: an ordered trie from the price key to
  the aggregate volume and the order queue of that price.
\<close>

type_synonym levels = "(bytes \<times> (int \<times> Trie)) list"

definition levelsSetOrder :: "levels \<Rightarrow> bytes \<Rightarrow> bytes \<Rightarrow> (int \<Rightarrow> int) \<Rightarrow> levels" where
  "levelsSetOrder book priceKey orderKey f =
     (let queue = (case TryGet book priceKey of None \<Rightarrow> [] | Some (volume, q) \<Rightarrow> q);
          queue' = queueSetOrder queue orderKey f;
          volume' = queueVolume queue'
      in if volume' = 0 then fst (TryDelete priceKey book)
         else TryUpdate priceKey (volume', queue') book)"

text \<open>
  The same step on the state that the dump reads. The external operations are
  parameters: \<open>rlpEncode\<close> and \<open>rlpDecode\<close> for price-level values, \<open>commitTrie\<close> for the
  root of an order queue. The stored key of a price or an order id is the 32-byte
  big-endian form of the number, as in tomox\_trie\_test.go, registered as its own
  preimage when \<^verbatim>\<open>update\<close> writes it (4.2). \<^verbatim>\<open>openOrCreate\<close> (4.5) gives the exchange object
  of the write path; a stored value that does not decode is a \<^verbatim>\<open>CorruptStateError\<close> (7).
\<close>

record externals =
  rlpEncode :: "orderList \<Rightarrow> bytes"
  rlpDecode :: "bytes \<Rightarrow> orderList option"
  commitTrie :: "Trie \<Rightarrow> hash"

datatype writeError = CorruptStateError hash int

definition openOrCreate :: "TomoXStateDB \<Rightarrow> hash \<Rightarrow> stateExchanges" where
  "openOrCreate self orderBook =
     (case getStateExchangeObject self orderBook of
        None \<Rightarrow> \<lparr>asksTrie = [], bidsTrie = []\<rparr>
      | Some e \<Rightarrow> e)"

definition writeLevel ::
    "externals \<Rightarrow> TomoXStateDB \<Rightarrow> hash \<Rightarrow> bytes \<Rightarrow> bytes \<Rightarrow> Trie \<Rightarrow> (int \<Rightarrow> int) \<Rightarrow> TomoXStateDB" where
  "writeLevel ext self orderBook priceKey orderKey queue f =
     (let e = openOrCreate self orderBook;
          queue' = queueSetOrder queue orderKey f;
          volume' = queueVolume queue';
          data' = \<lparr>orderList.Volume = volume', Root = commitTrie ext queue'\<rparr>;
          asks' = (if volume' = 0 then fst (TryDelete priceKey (asksTrie e))
                   else TryUpdate priceKey (rlpEncode ext data') (asksTrie e));
          registry = (if TryGet queue' orderKey = None then preimages self
                      else (preimages self)(orderKey \<mapsto> orderKey));
          registry' = (if volume' = 0 then registry else registry(priceKey \<mapsto> priceKey))
      in \<lparr>stateExhangeObjects = (stateExhangeObjects self)(orderBook \<mapsto> e\<lparr>asksTrie := asks'\<rparr>),
          preimages = registry',
          orderListTries =
            (\<lambda>sd ob price data.
               if sd = Ask \<and> ob = orderBook \<and> price = BytesToHash priceKey \<and> data = data'
               then queue' else orderListTries self sd ob price data)\<rparr>)"

definition setOrder ::
    "externals \<Rightarrow> TomoXStateDB \<Rightarrow> hash \<Rightarrow> int \<Rightarrow> int \<Rightarrow> (int \<Rightarrow> int) \<Rightarrow> writeError + TomoXStateDB" where
  "setOrder ext self orderBook price orderId f =
     (let priceKey = HashBytes (BigToHash price);
          orderKey = HashBytes (BigToHash orderId)
      in case TryGet (asksTrie (openOrCreate self orderBook)) priceKey of
           None \<Rightarrow> Inr (writeLevel ext self orderBook priceKey orderKey [] f)
         | Some v \<Rightarrow>
             (case rlpDecode ext v of
                None \<Rightarrow> Inl (CorruptStateError orderBook price)
              | Some data \<Rightarrow>
                  Inr (writeLevel ext self orderBook priceKey orderKey
                         (orderListTries self Ask orderBook (BytesToHash priceKey) data) f)))"

definition upsertOrder ::
    "externals \<Rightarrow> TomoXStateDB \<Rightarrow> hash \<Rightarrow> int \<Rightarrow> int \<Rightarrow> int \<Rightarrow> writeError + TomoXStateDB" where
  "upsertOrder ext self orderBook price orderId volumeDelta =
     setOrder ext self orderBook price orderId (\<lambda>old. old + volumeDelta)"

definition removeOrder ::
    "externals \<Rightarrow> TomoXStateDB \<Rightarrow> hash \<Rightarrow> int \<Rightarrow> int \<Rightarrow> writeError + TomoXStateDB" where
  "removeOrder ext self orderBook price orderId =
     setOrder ext self orderBook price orderId (\<lambda>old. 0)"

text \<open>
  A reachable ask book: the state after a sequence of writes to the ask side of one
  order book, from the freshly initialised book (4.5: empty ask and bid sides).
\<close>

datatype bookOp = UpsertOrder int int int | RemoveOrder int int

fun applyOps :: "externals \<Rightarrow> hash \<Rightarrow> bookOp list \<Rightarrow> TomoXStateDB \<Rightarrow> writeError + TomoXStateDB" where
  "applyOps ext orderBook [] self = Inr self"
| "applyOps ext orderBook (UpsertOrder price orderId volumeDelta # ops) self =
     (case upsertOrder ext self orderBook price orderId volumeDelta of
        Inl err \<Rightarrow> Inl err
      | Inr self' \<Rightarrow> applyOps ext orderBook ops self')"
| "applyOps ext orderBook (RemoveOrder price orderId # ops) self =
     (case removeOrder ext self orderBook price orderId of
        Inl err \<Rightarrow> Inl err
      | Inr self' \<Rightarrow> applyOps ext orderBook ops self')"

definition freshBook :: "hash \<Rightarrow> TomoXStateDB" where
  "freshBook orderBook =
     \<lparr>stateExhangeObjects = [orderBook \<mapsto> \<lparr>asksTrie = [], bidsTrie = []\<rparr>],
      preimages = Map.empty,
      orderListTries = (\<lambda>sd ob price data. [])\<rparr>"

text \<open>
  The \<open>(price, orderId, volume)\<close> triples of a snapshot, and their replay through
  \<^verbatim>\<open>upsertOrder\<close> into a fresh book.
\<close>

definition triples :: "dump \<Rightarrow> (int \<times> int \<times> int) list" where
  "triples snap =
     concat (map (\<lambda>(price, d). map (\<lambda>(orderId, volume). (price, orderId, volume)) (Orders d)) snap)"

definition replay :: "externals \<Rightarrow> hash \<Rightarrow> dump \<Rightarrow> writeError + TomoXStateDB" where
  "replay ext orderBook snap =
     applyOps ext orderBook
       (map (\<lambda>(price, orderId, volume). UpsertOrder price orderId volume) (triples snap))
       (freshBook orderBook)"

text \<open>
  The book held by a state, read through the decoder, and the well-formedness that the
  writes keep: keys in iterator order and 32 bytes wide, every queue non-empty with
  positive volumes in their shortest encoding, every aggregate equal to the sum of its
  queue, every stored key registered as its own preimage.
\<close>

definition askLevels :: "externals \<Rightarrow> TomoXStateDB \<Rightarrow> hash \<Rightarrow> levels" where
  "askLevels ext self orderBook =
     map (\<lambda>(k, v). (k, (orderList.Volume (the (rlpDecode ext v)),
                        orderListTries self Ask orderBook (BytesToHash k) (the (rlpDecode ext v)))))
       (asksTrie (openOrCreate self orderBook))"

definition goodQueue :: "Trie \<Rightarrow> bool" where
  "goodQueue queue =
     (sorted_wrt keyLess (map fst queue) \<and>
      (\<forall>(k, b) \<in> set queue. length k = HashLength \<and> 0 < SetBytes b \<and> BigBytes (SetBytes b) = b))"

definition goodLevels :: "levels \<Rightarrow> bool" where
  "goodLevels book =
     (sorted_wrt keyLess (map fst book) \<and>
      (\<forall>(k, (volume, queue)) \<in> set book.
         length k = HashLength \<and> queue \<noteq> [] \<and> volume = queueVolume queue \<and> goodQueue queue))"

definition bookInv :: "externals \<Rightarrow> hash \<Rightarrow> TomoXStateDB \<Rightarrow> bool" where
  "bookInv ext orderBook self =
     (getStateExchangeObject self orderBook \<noteq> None \<and>
      (\<forall>(k, v) \<in> set (asksTrie (openOrCreate self orderBook)). rlpDecode ext v \<noteq> None) \<and>
      goodLevels (askLevels ext self orderBook) \<and>
      (\<forall>(k, (volume, queue)) \<in> set (askLevels ext self orderBook).
         preimages self k = Some k \<and> (\<forall>(ik, b) \<in> set queue. preimages self ik = Some ik)))"

text \<open>
  Modelled from the spec: \<^verbatim>\<open>snapshot()\<close> of a price-level book (4.4), "produced by
  iterating the book's trie in ascending price order, and for every price, iterating that
  price's OrderQueue in ascending order-id order".
\<close>

definition snapshot :: "levels \<Rightarrow> dump" where
  "snapshot book =
     map (\<lambda>(k, (volume, queue)).
            (SetBytes k, \<lparr>Volume = volume,
                           Orders = map (\<lambda>(ik, b). (SetBytes ik, SetBytes b)) queue\<rparr>))
       book"

text \<open>
  An instance of the external operations for the examples: a price-level value is the 32
  bytes of the root followed by the bytes of the volume; every queue commits to root 0.
\<close>

definition plainExternals :: externals where
  "plainExternals =
     \<lparr>rlpEncode = (\<lambda>data. HashBytes (Root data) @ BigBytes (orderList.Volume data)),
      rlpDecode = (\<lambda>v. if length v < HashLength then None
                        else Some \<lparr>orderList.Volume = SetBytes (drop HashLength v),
                                   Root = BytesToHash (take HashLength v)\<rparr>),
      commitTrie = (\<lambda>queue. 0)\<rparr>"

section \<open>The light-client backend (les/api\_backend.go)\<close>

text \<open>
  \<^verbatim>\<open>LesApiBackend\<close>, as far as an order entry point could touch it: the pools reachable
  through \<^verbatim>\<open>b.eth\<close>. Each method returns its results and the backend after the call.
\<close>

record ('tx, 'otx) LesApiBackend =
  txPool :: "'tx list"
  orderPool :: "'otx list"

definition LesApiBackend_SendOrderTx ::
    "('tx, 'otx) LesApiBackend \<Rightarrow> 'ctx \<Rightarrow> 'otx \<Rightarrow> string option \<times> ('tx, 'otx) LesApiBackend" where
  "LesApiBackend_SendOrderTx b ctx signedTx = (None, b)"

definition LesApiBackend_GetOrderNonce ::
    "('tx, 'otx) LesApiBackend \<Rightarrow> hash \<Rightarrow> 64 word \<times> string option" where
  "LesApiBackend_GetOrderNonce b address = (0, Some ''cannot find tomox service'')"

section \<open>Example states\<close>

text \<open>
  An instance of the \<open>decode\<close> parameter for the examples: a stored price-level value is
  one byte, the aggregate volume; any other byte string fails to decode.
\<close>

definition exampleDecode :: "bytes \<Rightarrow> orderList option" where
  "exampleDecode Value =
     (case Value of [b] \<Rightarrow> Some \<lparr>orderList.Volume = uint b, Root = 0\<rparr> | _ \<Rightarrow> None)"

text \<open>
  The order queues of the examples, by price: at price 100 the orders 1 (volume 5) and 2
  (volume 3), at price 90 the order 3 (volume 10), as in the scenario of the spec (8).
\<close>

definition exampleQueues :: "side \<Rightarrow> hash \<Rightarrow> hash \<Rightarrow> orderList \<Rightarrow> Trie" where
  "exampleQueues sd orderBook price data =
     (if price = 100 then [([1], [5]), ([2], [3])]
      else if price = 90 then [([3], [10])]
      else [])"

text \<open>
  A state with the two order books 1 and 2, both holding the trie \<open>t\<close> on the ask side
  and on the bid side, and with the preimage registry \<open>pre\<close>.
\<close>

definition exampleState :: "Trie \<Rightarrow> (bytes \<rightharpoonup> bytes) \<Rightarrow> TomoXStateDB" where
  "exampleState t pre =
     \<lparr>stateExhangeObjects =
        (\<lambda>orderBook. if orderBook = 1 \<or> orderBook = 2
                      then Some \<lparr>asksTrie = t, bidsTrie = t\<rparr> else None),
      preimages = pre,
      orderListTries = exampleQueues\<rparr>"

text \<open>
  Two preimage registries for the examples: the stored key is its own preimage
  (\<open>Some\<close>); or it is, except that the preimage of the stored key 100 is missing.
\<close>

definition lostPreimages :: "bytes \<rightharpoonup> bytes" where
  "lostPreimages shaKey = (if shaKey = [100] then None else Some shaKey)"

section \<open>Facts about the dump loops\<close>

lemma dumpOrders_eq:
  "dumpOrders self t orders = orders @ map (\<lambda>(k, v). (SetBytes (GetKey self k), SetBytes v)) t"
  by (induction t arbitrary: orders) auto

lemma dumpLoop_all_decode:
  "\<forall>(k, v) \<in> set t. decode v \<noteq> None \<Longrightarrow>
   dumpLoop decode self sd ob t result =
     Inr (result @ map (\<lambda>(k, v). (SetBytes (GetKey self k),
        \<lparr>Volume = orderList.Volume (the (decode v)),
         Orders = dumpOrders self
           (orderListTries self sd ob (BytesToHash (GetKey self k)) (the (decode v))) []\<rparr>)) t)"
  by (induction t arbitrary: result) (auto simp: Let_def)


lemma dumpLoop_Inr_decodes:
  "dumpLoop decode self sd ob t result = Inr snap \<Longrightarrow> \<forall>(k, v) \<in> set t. decode v \<noteq> None"
proof (induction t arbitrary: result)
  case Nil
  then show ?case by simp
next
  case (Cons a t)
  obtain k v where a: "a = (k, v)" by (cases a)
  from Cons.prems a obtain d where d: "decode v = Some d"
    by (cases "decode v") (auto simp: Let_def)
  with Cons.prems a have "\<exists>r. dumpLoop decode self sd ob t r = Inr snap"
    by (auto simp: Let_def)
  with Cons.IH have "\<forall>(k, v) \<in> set t. decode v \<noteq> None" by blast
  with a d show ?case by simp
qed


lemma dumpLoop_not_found_free:
  "dumpLoop decode self sd ob t result \<noteq> Inl (OrderBookNotFound h)"
  by (induction t arbitrary: result) (auto simp: Let_def split: option.splits)

lemma example_book_1:
  "getStateExchangeObject (exampleState t pre) 1 = Some \<lparr>asksTrie = t, bidsTrie = t\<rparr>"
  by (simp add: getStateExchangeObject_def exampleState_def)

section \<open>Not-found errors and empty sides\<close>

text \<open>
  C2. \<^verbatim>\<open>DumpAskTrie\<close> and \<^verbatim>\<open>DumpBidTrie\<close> return the order-book-not-found error exactly
  when no exchange object exists for the queried order-book id, and the error then names
  that id. For an order book that exists, dumping a side whose trie holds no entries
  returns the empty snapshot and no error.
\<close>

theorem dump_not_found_iff:
  "((\<exists>h. DumpAskTrie decode self orderBook = Inl (OrderBookNotFound h))
       \<longleftrightarrow> getStateExchangeObject self orderBook = None) \<and>
   ((\<exists>h. DumpBidTrie decode self orderBook = Inl (OrderBookNotFound h))
       \<longleftrightarrow> getStateExchangeObject self orderBook = None) \<and>
   (getStateExchangeObject self orderBook = None \<longrightarrow>
      DumpAskTrie decode self orderBook = Inl (OrderBookNotFound orderBook) \<and>
      DumpBidTrie decode self orderBook = Inl (OrderBookNotFound orderBook)) \<and>
   (\<forall>e. getStateExchangeObject self orderBook = Some e \<longrightarrow>
      (asksTrie e = [] \<longrightarrow> DumpAskTrie decode self orderBook = Inr []) \<and>
      (bidsTrie e = [] \<longrightarrow> DumpBidTrie decode self orderBook = Inr []))"
  by (cases "getStateExchangeObject self orderBook")
     (simp_all add: DumpAskTrie_def DumpBidTrie_def dumpLoop_not_found_free)

theorem dump_not_found_iff_witness:
  "getStateExchangeObject (exampleState [] Map.empty) 3 = None \<and>
   DumpAskTrie exampleDecode (exampleState [] Map.empty) 3 = Inl (OrderBookNotFound 3) \<and>
   getStateExchangeObject (exampleState [] Map.empty) 1 = Some \<lparr>asksTrie = [], bidsTrie = []\<rparr> \<and>
   DumpBidTrie exampleDecode (exampleState [] Map.empty) 1 = Inr []"
proof -
  have a: "getStateExchangeObject (exampleState [] Map.empty) 3 = None"
    by (simp add: getStateExchangeObject_def exampleState_def)
  have b: "getStateExchangeObject (exampleState [] Map.empty) 1 =
             Some \<lparr>asksTrie = [], bidsTrie = []\<rparr>"
    by (rule example_book_1)
  have c: "DumpAskTrie exampleDecode (exampleState [] Map.empty) 3 = Inl (OrderBookNotFound 3)"
    using dump_not_found_iff [of exampleDecode "exampleState [] Map.empty" 3] a by blast
  have d: "DumpBidTrie exampleDecode (exampleState [] Map.empty) 1 = Inr []"
    using dump_not_found_iff [of exampleDecode "exampleState [] Map.empty" 1] b by simp
  show ?thesis by (intro conjI a b c d)
qed

section \<open>Decode failures\<close>



section \<open>Aggregate volumes\<close>

lemma dumpLoop_volumes:
  assumes "\<forall>(k, v) \<in> set t. decode v \<noteq> None"
  shows "\<exists>snap. dumpLoop decode self sd ob t [] = Inr snap \<and>
           map (\<lambda>(price, d). DumpOrderList.Volume d) snap =
           map (\<lambda>(k, v). orderList.Volume (the (decode v))) t"
  using dumpLoop_all_decode [OF assms, of self sd ob "[]"]
  by (simp add: case_prod_beta comp_def)

text \<open>
  C8. Whenever every stored price-level value of the dumped side decodes, a dump returns
  a snapshot, and the \<^verbatim>\<open>Volume\<close> of each price entry is the \<^verbatim>\<open>Volume\<close> field decoded from
  the stored value of the corresponding trie entry. This holds whatever the order-list
  tries hold: replacing them by any others changes neither the success of the dump nor
  the volumes it reports, so the aggregate is neither recomputed from nor checked
  against the orders. Conversely, every snapshot a dump returns carries the decoded
  volumes. The example after the theorem stores the aggregate 7 at price 100 over
  orders of volumes 5 and 3: both dumps report 7, also over empty order lists.
\<close>

theorem dump_volume_verbatim:
  assumes "getStateExchangeObject self orderBook = Some e"
  shows "((\<forall>(k, v) \<in> set (asksTrie e). decode v \<noteq> None) \<longrightarrow>
          (\<forall>tries. \<exists>snap.
             DumpAskTrie decode (self\<lparr>orderListTries := tries\<rparr>) orderBook = Inr snap \<and>
             map (\<lambda>(price, d). DumpOrderList.Volume d) snap =
             map (\<lambda>(k, v). orderList.Volume (the (decode v))) (asksTrie e))) \<and>
         ((\<forall>(k, v) \<in> set (bidsTrie e). decode v \<noteq> None) \<longrightarrow>
          (\<forall>tries. \<exists>snap.
             DumpBidTrie decode (self\<lparr>orderListTries := tries\<rparr>) orderBook = Inr snap \<and>
             map (\<lambda>(price, d). DumpOrderList.Volume d) snap =
             map (\<lambda>(k, v). orderList.Volume (the (decode v))) (bidsTrie e))) \<and>
         ((\<forall>(k, v) \<in> set (asksTrie e). decode v \<noteq> None) \<longrightarrow>
          (\<exists>snap. DumpAskTrie decode self orderBook = Inr snap \<and>
             map (\<lambda>(price, d). DumpOrderList.Volume d) snap =
             map (\<lambda>(k, v). orderList.Volume (the (decode v))) (asksTrie e))) \<and>
         ((\<forall>(k, v) \<in> set (bidsTrie e). decode v \<noteq> None) \<longrightarrow>
          (\<exists>snap. DumpBidTrie decode self orderBook = Inr snap \<and>
             map (\<lambda>(price, d). DumpOrderList.Volume d) snap =
             map (\<lambda>(k, v). orderList.Volume (the (decode v))) (bidsTrie e))) \<and>
         (\<forall>snap. DumpAskTrie decode self orderBook = Inr snap \<longrightarrow>
           map (\<lambda>(price, d). DumpOrderList.Volume d) snap =
           map (\<lambda>(k, v). orderList.Volume (the (decode v))) (asksTrie e)) \<and>
         (\<forall>snap. DumpBidTrie decode self orderBook = Inr snap \<longrightarrow>
           map (\<lambda>(price, d). DumpOrderList.Volume d) snap =
           map (\<lambda>(k, v). orderList.Volume (the (decode v))) (bidsTrie e))"
proof -
  have *: "map (\<lambda>(price, d). DumpOrderList.Volume d) snap =
           map (\<lambda>(k, v). orderList.Volume (the (decode v))) t"
    if "dumpLoop decode self sd orderBook t [] = Inr snap" for sd t snap
  proof -
    from dumpLoop_Inr_decodes [OF that] have "\<forall>(k, v) \<in> set t. decode v \<noteq> None" .
    from dumpLoop_volumes [OF this, of self sd orderBook] that
    show ?thesis by auto
  qed
  have a: "DumpAskTrie decode s orderBook = dumpLoop decode s Ask orderBook (asksTrie e) []"
    and b: "DumpBidTrie decode s orderBook = dumpLoop decode s Bid orderBook (bidsTrie e) []"
    if "getStateExchangeObject s orderBook = Some e" for s
    using that by (simp_all add: DumpAskTrie_def DumpBidTrie_def)
  have u: "getStateExchangeObject (self\<lparr>orderListTries := tries\<rparr>) orderBook = Some e" for tries
    using assms by (simp add: getStateExchangeObject_def)
  have 1: "\<forall>tries. \<exists>snap.
             DumpAskTrie decode (self\<lparr>orderListTries := tries\<rparr>) orderBook = Inr snap \<and>
             map (\<lambda>(price, d). DumpOrderList.Volume d) snap =
             map (\<lambda>(k, v). orderList.Volume (the (decode v))) (asksTrie e)"
    if "\<forall>(k, v) \<in> set (asksTrie e). decode v \<noteq> None"
    unfolding a [OF u] using dumpLoop_volumes [OF that] by blast
  have 2: "\<forall>tries. \<exists>snap.
             DumpBidTrie decode (self\<lparr>orderListTries := tries\<rparr>) orderBook = Inr snap \<and>
             map (\<lambda>(price, d). DumpOrderList.Volume d) snap =
             map (\<lambda>(k, v). orderList.Volume (the (decode v))) (bidsTrie e)"
    if "\<forall>(k, v) \<in> set (bidsTrie e). decode v \<noteq> None"
    unfolding b [OF u] using dumpLoop_volumes [OF that] by blast
  have 3: "\<exists>snap. DumpAskTrie decode self orderBook = Inr snap \<and>
             map (\<lambda>(price, d). DumpOrderList.Volume d) snap =
             map (\<lambda>(k, v). orderList.Volume (the (decode v))) (asksTrie e)"
    if "\<forall>(k, v) \<in> set (asksTrie e). decode v \<noteq> None"
    unfolding a [OF assms] by (rule dumpLoop_volumes [OF that])
  have 4: "\<exists>snap. DumpBidTrie decode self orderBook = Inr snap \<and>
             map (\<lambda>(price, d). DumpOrderList.Volume d) snap =
             map (\<lambda>(k, v). orderList.Volume (the (decode v))) (bidsTrie e)"
    if "\<forall>(k, v) \<in> set (bidsTrie e). decode v \<noteq> None"
    unfolding b [OF assms] by (rule dumpLoop_volumes [OF that])
  have 5: "\<forall>snap. DumpAskTrie decode self orderBook = Inr snap \<longrightarrow>
           map (\<lambda>(price, d). DumpOrderList.Volume d) snap =
           map (\<lambda>(k, v). orderList.Volume (the (decode v))) (asksTrie e)"
    unfolding a [OF assms] using * by blast
  have 6: "\<forall>snap. DumpBidTrie decode self orderBook = Inr snap \<longrightarrow>
           map (\<lambda>(price, d). DumpOrderList.Volume d) snap =
           map (\<lambda>(k, v). orderList.Volume (the (decode v))) (bidsTrie e)"
    unfolding b [OF assms] using * by blast
  from 1 2 3 4 5 6 show ?thesis by blast
qed

theorem dump_volume_verbatim_witness:
  "getStateExchangeObject (exampleState [([90], [10]), ([100], [7])] Some) 1 =
     Some \<lparr>asksTrie = [([90], [10]), ([100], [7])], bidsTrie = [([90], [10]), ([100], [7])]\<rparr> \<and>
   exampleDecode [10] \<noteq> None \<and> exampleDecode [7] \<noteq> None \<and>
   DumpAskTrie exampleDecode (exampleState [([90], [10]), ([100], [7])] Some) 1 =
     Inr [(90, \<lparr>Volume = 10, Orders = [(3, 10)]\<rparr>),
          (100, \<lparr>Volume = 7, Orders = [(1, 5), (2, 3)]\<rparr>)] \<and>
   (\<exists>snap. DumpAskTrie exampleDecode (exampleState [([90], [10]), ([100], [7])] Some) 1 = Inr snap \<and>
      map (\<lambda>(price, d). DumpOrderList.Volume d) snap = [10, 7]) \<and>
   (\<exists>snap. DumpBidTrie exampleDecode (exampleState [([90], [10]), ([100], [7])] Some) 1 = Inr snap \<and>
      map (\<lambda>(price, d). DumpOrderList.Volume d) snap = [10, 7]) \<and>
   (\<exists>snap. DumpAskTrie exampleDecode
        ((exampleState [([90], [10]), ([100], [7])] Some)
           \<lparr>orderListTries := (\<lambda>sd orderBook price data. [])\<rparr>) 1 = Inr snap \<and>
      map (\<lambda>(price, d). DumpOrderList.Volume d) snap = [10, 7]) \<and>
   (\<exists>snap. DumpBidTrie exampleDecode
        ((exampleState [([90], [10]), ([100], [7])] Some)
           \<lparr>orderListTries := (\<lambda>sd orderBook price data. [])\<rparr>) 1 = Inr snap \<and>
      map (\<lambda>(price, d). DumpOrderList.Volume d) snap = [10, 7])"
proof -
  let ?t = "[([90], [10]), ([100], [7])] :: Trie"
  let ?s = "exampleState ?t Some"
  have a: "getStateExchangeObject ?s 1 = Some \<lparr>asksTrie = ?t, bidsTrie = ?t\<rparr>"
    by (rule example_book_1)
  have b: "exampleDecode [10] \<noteq> None" "exampleDecode [7] \<noteq> None"
    by (simp_all add: exampleDecode_def)
  have c: "DumpAskTrie exampleDecode ?s 1 =
     Inr [(90, \<lparr>Volume = 10, Orders = [(3, 10)]\<rparr>),
          (100, \<lparr>Volume = 7, Orders = [(1, 5), (2, 3)]\<rparr>)]"
    by (simp add: DumpAskTrie_def exampleState_def getStateExchangeObject_def exampleDecode_def
        GetKey_def SetBytes_def BytesToHash_def exampleQueues_def)
  note inst = dump_volume_verbatim [OF a, of exampleDecode]
  have d: "\<exists>snap. DumpAskTrie exampleDecode ?s 1 = Inr snap \<and>
      map (\<lambda>(price, d). DumpOrderList.Volume d) snap = [10, 7]"
    using inst [THEN conjunct2, THEN conjunct2, THEN conjunct1] b by (simp add: exampleDecode_def)
  have e: "\<exists>snap. DumpBidTrie exampleDecode ?s 1 = Inr snap \<and>
      map (\<lambda>(price, d). DumpOrderList.Volume d) snap = [10, 7]"
    using inst [THEN conjunct2, THEN conjunct2, THEN conjunct2, THEN conjunct1] b
    by (simp add: exampleDecode_def)
  have f: "\<exists>snap. DumpAskTrie exampleDecode
        (?s\<lparr>orderListTries := (\<lambda>sd orderBook price data. [])\<rparr>) 1 = Inr snap \<and>
      map (\<lambda>(price, d). DumpOrderList.Volume d) snap = [10, 7]"
    using inst [THEN conjunct1] b by (simp add: exampleDecode_def)
  have g: "\<exists>snap. DumpBidTrie exampleDecode
        (?s\<lparr>orderListTries := (\<lambda>sd orderBook price data. [])\<rparr>) 1 = Inr snap \<and>
      map (\<lambda>(price, d). DumpOrderList.Volume d) snap = [10, 7]"
    using inst [THEN conjunct2, THEN conjunct1] b by (simp add: exampleDecode_def)
  show ?thesis by (intro conjI a b c d e f g)
qed

section \<open>Big-endian keys and the order of a dump\<close>

lemma SetBytes_from_acc:
  "SetBytes_from acc bs = acc * 256 ^ length bs + SetBytes_from 0 bs"
proof (induction bs arbitrary: acc)
  case Nil
  then show ?case by simp
next
  case (Cons b bs)
  have "SetBytes_from acc (b # bs) = SetBytes_from (acc * 256 + uint b) bs" by simp
  also have "\<dots> = (acc * 256 + uint b) * 256 ^ length bs + SetBytes_from 0 bs"
    by (rule Cons.IH)
  also have "SetBytes_from 0 (b # bs) = uint b * 256 ^ length bs + SetBytes_from 0 bs"
    using Cons.IH [of "uint b"] by simp
  ultimately show ?case by (simp add: algebra_simps)
qed

lemma SetBytes_Nil: "SetBytes [] = 0"
  by (simp add: SetBytes_def)

lemma SetBytes_Cons: "SetBytes (b # bs) = uint b * 256 ^ length bs + SetBytes bs"
  using SetBytes_from_acc [of "uint b" bs] by (simp add: SetBytes_def)

lemma SetBytes_nonneg: "0 \<le> SetBytes bs"
  by (induction bs) (simp_all add: SetBytes_Nil SetBytes_Cons)

lemma uint_byte_less: "uint (b :: 8 word) < 256"
  using uint_bounded [of b] by simp

lemma SetBytes_less: "SetBytes bs < 256 ^ length bs"
proof (induction bs)
  case Nil
  then show ?case by (simp add: SetBytes_Nil)
next
  case (Cons b bs)
  define n :: int where "n = 256 ^ length bs"
  have "uint b + 1 \<le> 256" using uint_byte_less [of b] by simp
  then have "(uint b + 1) * n \<le> 256 * n"
    by (rule mult_right_mono) (simp add: n_def)
  then have "uint b * n + n \<le> 256 * n" by (simp add: algebra_simps)
  moreover have "SetBytes bs < n" using Cons by (simp add: n_def)
  moreover have "SetBytes (b # bs) = uint b * n + SetBytes bs" by (simp add: SetBytes_Cons n_def)
  moreover have "(256::int) ^ length (b # bs) = 256 * n" by (simp add: n_def)
  ultimately show ?case by linarith
qed

lemma SetBytes_Cons_less:
  assumes "length xs = length ys" and "x < y"
  shows "SetBytes (x # xs) < SetBytes (y # ys)"
proof -
  define n :: int where "n = 256 ^ length xs"
  from assms(2) have "uint x + 1 \<le> uint y" by (simp add: word_less_def)
  then have "(uint x + 1) * n \<le> uint y * n" by (rule mult_right_mono) (simp add: n_def)
  then have "uint x * n + n \<le> uint y * n" by (simp add: algebra_simps)
  moreover have "SetBytes xs < n" using SetBytes_less [of xs] by (simp add: n_def)
  moreover have "0 \<le> SetBytes ys" by (rule SetBytes_nonneg)
  moreover have "SetBytes (x # xs) = uint x * n + SetBytes xs" by (simp add: SetBytes_Cons n_def)
  moreover have "SetBytes (y # ys) = uint y * n + SetBytes ys"
    using assms(1) by (simp add: SetBytes_Cons n_def)
  ultimately show ?thesis by linarith
qed

lemma keyLess_iff_SetBytes_less:
  "length a = length b \<Longrightarrow> keyLess a b \<longleftrightarrow> SetBytes a < SetBytes b"
proof (induction a b rule: list_induct2)
  case Nil
  then show ?case by simp
next
  case (Cons x xs y ys)
  consider "x < y" | "x = y" | "y < x" by (rule linorder_cases)
  then show ?case
  proof cases
    case 1
    with SetBytes_Cons_less [OF Cons.hyps 1] show ?thesis by simp
  next
    case 2
    with Cons.IH Cons.hyps show ?thesis by (simp add: SetBytes_Cons)
  next
    case 3
    from SetBytes_Cons_less [OF Cons.hyps [symmetric] 3]
    have "\<not> SetBytes (x # xs) < SetBytes (y # ys)" by simp
    moreover from 3 have "\<not> keyLess (x # xs) (y # ys)" by auto
    ultimately show ?thesis by simp
  qed
qed


lemma resolvesKeysD:
  assumes "resolvesKeys self t" and "x \<in> set t"
  shows "SetBytes (GetKey self (fst x)) = SetBytes (fst x)"
proof -
  obtain k v where x: "x = (k, v)" by (cases x)
  from assms x have "case preimages self k of None \<Rightarrow> False | Some key \<Rightarrow> SetBytes key = SetBytes k"
    unfolding resolvesKeys_def by fast
  then show ?thesis by (cases "preimages self k") (simp_all add: GetKey_def x)
qed

lemma ascending_resolved_keys:
  assumes "iteratesAscending t" and "resolvesKeys self t"
  shows "sorted_wrt (<) (map (\<lambda>(k, v). SetBytes (GetKey self k)) t)"
proof -
  have "sorted_wrt (\<lambda>x y. SetBytes (GetKey self (fst x)) < SetBytes (GetKey self (fst y))) t"
  proof (rule sorted_wrt_mono_rel [where P = "\<lambda>x y. SetBytes (fst x) < SetBytes (fst y)"])
    fix x y assume x: "x \<in> set t" and y: "y \<in> set t"
      and l: "SetBytes (fst x) < SetBytes (fst y)"
    from l show "SetBytes (GetKey self (fst x)) < SetBytes (GetKey self (fst y))"
      by (simp only: resolvesKeysD [OF assms(2) x] resolvesKeysD [OF assms(2) y])
  next
    from assms(1) show "sorted_wrt (\<lambda>x y. SetBytes (fst x) < SetBytes (fst y)) t"
      by (simp only: iteratesAscending_def sorted_wrt_map)
  qed
  then have "sorted_wrt (<) (map (\<lambda>x. SetBytes (GetKey self (fst x))) t)"
    by (simp only: sorted_wrt_map)
  then show ?thesis by (simp only: split_def)
qed

lemma dumpLoop_snapshot:
  assumes run: "dumpLoop decode self sd ob t [] = Inr snap"
  shows "snap = map (\<lambda>(k, v). (SetBytes (GetKey self k),
        \<lparr>Volume = orderList.Volume (the (decode v)),
         Orders = dumpOrders self
           (orderListTries self sd ob (BytesToHash (GetKey self k)) (the (decode v))) []\<rparr>)) t"
proof -
  from dumpLoop_Inr_decodes [OF run] have "\<forall>(k, v) \<in> set t. decode v \<noteq> None" .
  from dumpLoop_all_decode [OF this, of self sd ob "[]"] run
  show ?thesis by simp
qed

lemma dumpLoop_prices:
  assumes run: "dumpLoop decode self sd ob t [] = Inr snap"
  shows "map fst snap = map (\<lambda>(k, v). SetBytes (GetKey self k)) t"
  unfolding dumpLoop_snapshot [OF run] by (simp add: case_prod_beta comp_def)

lemma dumpLoop_ascending:
  assumes run: "dumpLoop decode self sd ob t [] = Inr snap"
    and t: "iteratesAscending t" "resolvesKeys self t"
    and q: "\<forall>q \<in> set (openedTries decode self sd ob t). iteratesAscending q \<and> resolvesKeys self q"
  shows "ascendingDump snap"
proof -
  note snap = dumpLoop_snapshot [OF run]
  have 1: "sorted_wrt (<) (map fst snap)"
    using ascending_resolved_keys [OF t] by (simp only: dumpLoop_prices [OF run])
  have 2: "sorted_wrt (<) (map fst (Orders d))" if "(p, d) \<in> set snap" for p d
  proof -
    from that snap obtain k v where m: "(k, v) \<in> set t" and
      d: "Orders d = dumpOrders self
           (orderListTries self sd ob (BytesToHash (GetKey self k)) (the (decode v))) []"
      by auto
    let ?q = "orderListTries self sd ob (BytesToHash (GetKey self k)) (the (decode v))"
    have e: "map fst (Orders d) = map (\<lambda>(k, v). SetBytes (GetKey self k)) ?q"
      by (simp add: d dumpOrders_eq case_prod_beta comp_def)
    from m have "?q \<in> set (openedTries decode self sd ob t)"
      by (force simp: openedTries_def)
    with q have "iteratesAscending ?q" "resolvesKeys self ?q" by blast+
    from ascending_resolved_keys [OF this] show ?thesis by (simp only: e)
  qed
  from 1 2 show ?thesis unfolding ascendingDump_def by blast
qed

lemma dumpLoop_succeeds:
  assumes "\<forall>(k, v) \<in> set t. decode v \<noteq> None"
  shows "\<exists>snap. dumpLoop decode self sd ob t [] = Inr snap"
  using dumpLoop_all_decode [OF assms, of self sd ob "[]"] by simp




section \<open>Preimage misses\<close>

text \<open>
  C4 (as amended). A preimage-registry miss is not detected by a dump: \<^verbatim>\<open>GetKey\<close> reports
  no error, the dump reads the missing preimage as the number 0 and goes on. Whenever
  every stored price-level value of the side decodes, the dump returns a snapshot and no
  error, with one price entry per trie entry: the number of the key's preimage, or 0
  where the registry has none.
\<close>

theorem dump_reads_missing_preimage_as_zero:
  assumes "getStateExchangeObject self orderBook = Some e"
  shows "((\<forall>(k, v) \<in> set (asksTrie e). decode v \<noteq> None) \<longrightarrow>
          (\<exists>snap. DumpAskTrie decode self orderBook = Inr snap \<and>
             map fst snap =
               map (\<lambda>(k, v). case preimages self k of None \<Rightarrow> 0 | Some key \<Rightarrow> SetBytes key)
                 (asksTrie e))) \<and>
         ((\<forall>(k, v) \<in> set (bidsTrie e). decode v \<noteq> None) \<longrightarrow>
          (\<exists>snap. DumpBidTrie decode self orderBook = Inr snap \<and>
             map fst snap =
               map (\<lambda>(k, v). case preimages self k of None \<Rightarrow> 0 | Some key \<Rightarrow> SetBytes key)
                 (bidsTrie e)))"
proof -
  have g: "SetBytes (GetKey self k) = (case preimages self k of None \<Rightarrow> 0 | Some key \<Rightarrow> SetBytes key)"
    for k
    by (simp add: GetKey_def SetBytes_def split: option.splits)
  have *: "\<exists>snap. dumpLoop decode self sd orderBook t [] = Inr snap \<and>
             map fst snap =
               map (\<lambda>(k, v). case preimages self k of None \<Rightarrow> 0 | Some key \<Rightarrow> SetBytes key) t"
    if "\<forall>(k, v) \<in> set t. decode v \<noteq> None" for sd t
    using dumpLoop_all_decode [OF that, of self sd orderBook "[]"]
    by (simp add: case_prod_beta comp_def g)
  from assms show ?thesis
    using * [of "asksTrie e" Ask] * [of "bidsTrie e" Bid]
    by (simp add: DumpAskTrie_def DumpBidTrie_def)
qed

theorem dump_reads_missing_preimage_as_zero_witness:
  "getStateExchangeObject (exampleState [([90], [10]), ([100], [8])] lostPreimages) 1 =
     Some \<lparr>asksTrie = [([90], [10]), ([100], [8])], bidsTrie = [([90], [10]), ([100], [8])]\<rparr> \<and>
   exampleDecode [10] \<noteq> None \<and> exampleDecode [8] \<noteq> None \<and>
   preimages (exampleState [([90], [10]), ([100], [8])] lostPreimages) [100] = None \<and>
   (\<exists>snap. DumpAskTrie exampleDecode (exampleState [([90], [10]), ([100], [8])] lostPreimages) 1
              = Inr snap \<and> map fst snap = [90, 0])"
proof -
  let ?t = "[([90], [10]), ([100], [8])] :: Trie"
  let ?s = "exampleState ?t lostPreimages"
  have a: "getStateExchangeObject ?s 1 = Some \<lparr>asksTrie = ?t, bidsTrie = ?t\<rparr>"
    by (rule example_book_1)
  have b: "exampleDecode [10] \<noteq> None" "exampleDecode [8] \<noteq> None"
    by (simp_all add: exampleDecode_def)
  have c: "preimages ?s [100] = None"
    by (simp add: exampleState_def lostPreimages_def)
  have p: "preimages ?s [90] = Some [90]"
    by (simp add: exampleState_def lostPreimages_def)
  have d: "\<exists>snap. DumpAskTrie exampleDecode ?s 1 = Inr snap \<and> map fst snap = [90, 0]"
    using dump_reads_missing_preimage_as_zero [OF a, of exampleDecode, THEN conjunct1] b
    by (simp add: c p SetBytes_def)
  show ?thesis by (intro conjI a b c d)
qed

text \<open>
  C4 as stated fails: with the preimage of the stored key 100 missing, both dumps return
  a snapshot, not an error, and the entry of that key stands under price 0.
\<close>

theorem dump_swallows_preimage_miss_counterexample:
  "preimages (exampleState [([90], [10]), ([100], [8])] lostPreimages) [100] = None \<and>
   DumpAskTrie exampleDecode (exampleState [([90], [10]), ([100], [8])] lostPreimages) 1 =
     Inr [(90, \<lparr>Volume = 10, Orders = [(3, 10)]\<rparr>), (0, \<lparr>Volume = 8, Orders = []\<rparr>)] \<and>
   DumpBidTrie exampleDecode (exampleState [([90], [10]), ([100], [8])] lostPreimages) 1 =
     Inr [(90, \<lparr>Volume = 10, Orders = [(3, 10)]\<rparr>), (0, \<lparr>Volume = 8, Orders = []\<rparr>)]"
  by (simp add: DumpAskTrie_def DumpBidTrie_def exampleState_def getStateExchangeObject_def
      exampleDecode_def GetKey_def SetBytes_def BytesToHash_def exampleQueues_def
      lostPreimages_def)

section \<open>The two dumps as one function of the trie\<close>

lemma dumpLoop_other_side:
  assumes "preimages self1 = preimages self2"
    and "\<forall>price data. orderListTries self1 sd1 ob1 price data = orderListTries self2 sd2 ob2 price data"
  shows "dumpLoop decode self2 sd2 ob2 t result =
           (case dumpLoop decode self1 sd1 ob1 t result of
              Inr snap \<Rightarrow> Inr snap
            | Inl (FailDecodeOrderList h price) \<Rightarrow> Inl (FailDecodeOrderList ob2 price)
            | Inl (OrderBookNotFound h) \<Rightarrow> Inl (OrderBookNotFound h))"
proof -
  from assms(1) have g: "GetKey self1 = GetKey self2"
    by (simp add: GetKey_def fun_eq_iff)
  show ?thesis
    by (induction t arbitrary: result) (auto simp: Let_def g assms(2) dumpOrders_eq split: option.splits)
qed

lemma dumpLoop_error_names_book:
  "dumpLoop decode self sd ob t result = Inl err \<Longrightarrow> \<exists>price. err = FailDecodeOrderList ob price"
  by (induction t arbitrary: result) (auto simp: Let_def split: option.splits)

text \<open>
  C9 (as amended). Take two states with the same preimage registry, an order book of the
  first whose ask trie holds the same leaves as the bid trie of an order book of the
  second, and the same order-list tries behind them. Then \<^verbatim>\<open>DumpAskTrie\<close> on the first and
  \<^verbatim>\<open>DumpBidTrie\<close> on the second return the same snapshot, or decode errors with the same
  price, each naming the order-book id it was queried with; the two results are equal
  when the two ids are.
\<close>

theorem dump_ask_bid_same_function:
  assumes "getStateExchangeObject self1 ob1 = Some e1"
    and "getStateExchangeObject self2 ob2 = Some e2"
    and "asksTrie e1 = bidsTrie e2"
    and "preimages self1 = preimages self2"
    and "\<forall>price data. orderListTries self1 Ask ob1 price data = orderListTries self2 Bid ob2 price data"
  shows "(\<forall>snap. DumpAskTrie decode self1 ob1 = Inr snap \<longleftrightarrow>
                 DumpBidTrie decode self2 ob2 = Inr snap) \<and>
         (\<forall>price. DumpAskTrie decode self1 ob1 = Inl (FailDecodeOrderList ob1 price) \<longleftrightarrow>
                  DumpBidTrie decode self2 ob2 = Inl (FailDecodeOrderList ob2 price)) \<and>
         (ob1 = ob2 \<longrightarrow> DumpAskTrie decode self1 ob1 = DumpBidTrie decode self2 ob2)"
proof -
  let ?a = "dumpLoop decode self1 Ask ob1 (asksTrie e1) []"
  let ?b = "dumpLoop decode self2 Bid ob2 (asksTrie e1) []"
  have a: "DumpAskTrie decode self1 ob1 = ?a" using assms(1) by (simp add: DumpAskTrie_def)
  have b: "DumpBidTrie decode self2 ob2 = ?b" using assms(2,3) by (simp add: DumpBidTrie_def)
  note rel = dumpLoop_other_side [OF assms(4,5), of decode "asksTrie e1" "[]"]
  show ?thesis
  proof (cases ?a)
    case (Inl err)
    from dumpLoop_error_names_book [OF Inl] obtain price where "err = FailDecodeOrderList ob1 price"
      by blast
    with Inl rel show ?thesis unfolding a b by auto
  next
    case (Inr snap)
    with rel show ?thesis unfolding a b by auto
  qed
qed

theorem dump_ask_bid_same_function_witness:
  "getStateExchangeObject (exampleState [([90], [10]), ([100], [])] Some) 1 =
     Some \<lparr>asksTrie = [([90], [10]), ([100], [])], bidsTrie = [([90], [10]), ([100], [])]\<rparr> \<and>
   getStateExchangeObject (exampleState [([90], [10]), ([100], [])] Some) 2 =
     Some \<lparr>asksTrie = [([90], [10]), ([100], [])], bidsTrie = [([90], [10]), ([100], [])]\<rparr> \<and>
   (\<forall>price data.
      orderListTries (exampleState [([90], [10]), ([100], [])] Some) Ask 1 price data =
      orderListTries (exampleState [([90], [10]), ([100], [])] Some) Bid 2 price data) \<and>
   DumpAskTrie exampleDecode (exampleState [([90], [10]), ([100], [])] Some) 1 =
     Inl (FailDecodeOrderList 1 100) \<and>
   DumpBidTrie exampleDecode (exampleState [([90], [10]), ([100], [])] Some) 2 =
     Inl (FailDecodeOrderList 2 100)"
proof -
  let ?t = "[([90], [10]), ([100], [])] :: Trie"
  let ?s = "exampleState ?t Some"
  let ?e = "\<lparr>asksTrie = ?t, bidsTrie = ?t\<rparr>"
  have a: "getStateExchangeObject ?s 1 = Some ?e"
    by (rule example_book_1)
  have b: "getStateExchangeObject ?s 2 = Some ?e"
    by (simp add: getStateExchangeObject_def exampleState_def)
  have c: "\<forall>price data. orderListTries ?s Ask 1 price data = orderListTries ?s Bid 2 price data"
    by (simp add: exampleState_def exampleQueues_def)
  have d: "DumpAskTrie exampleDecode ?s 1 = Inl (FailDecodeOrderList 1 100)"
    by (simp add: DumpAskTrie_def exampleState_def getStateExchangeObject_def exampleDecode_def
        GetKey_def SetBytes_def BytesToHash_def exampleQueues_def)
  have t: "asksTrie ?e = bidsTrie ?e" by simp
  have e: "DumpBidTrie exampleDecode ?s 2 = Inl (FailDecodeOrderList 2 100)"
    using dump_ask_bid_same_function [OF a b t refl c, of exampleDecode] d by blast
  show ?thesis by (intro conjI a b c d e)
qed

text \<open>
  C9 as stated fails on the errors: for the order books 1 and 2 with the same leaves, one
  of which does not decode, the error of one dump names book 1 and the error of the
  other names book 2.
\<close>

theorem dump_ask_bid_errors_differ_counterexample:
  "getStateExchangeObject (exampleState [([90], [10]), ([100], [])] Some) 1 =
     Some \<lparr>asksTrie = [([90], [10]), ([100], [])], bidsTrie = [([90], [10]), ([100], [])]\<rparr> \<and>
   getStateExchangeObject (exampleState [([90], [10]), ([100], [])] Some) 2 =
     Some \<lparr>asksTrie = [([90], [10]), ([100], [])], bidsTrie = [([90], [10]), ([100], [])]\<rparr> \<and>
   DumpAskTrie exampleDecode (exampleState [([90], [10]), ([100], [])] Some) 1 =
     Inl (FailDecodeOrderList 1 100) \<and>
   DumpBidTrie exampleDecode (exampleState [([90], [10]), ([100], [])] Some) 2 =
     Inl (FailDecodeOrderList 2 100) \<and>
   DumpAskTrie exampleDecode (exampleState [([90], [10]), ([100], [])] Some) 1 \<noteq>
   DumpBidTrie exampleDecode (exampleState [([90], [10]), ([100], [])] Some) 2"
  by (simp add: DumpAskTrie_def DumpBidTrie_def exampleState_def getStateExchangeObject_def
      exampleDecode_def GetKey_def SetBytes_def BytesToHash_def exampleQueues_def)

section \<open>Best left and best right of the ordered trie\<close>

lemma bestLeftFrom_mem: "bestLeftFrom best es \<in> set (best # es)"
  by (induction es arbitrary: best) auto

lemma bestRightFrom_mem: "bestRightFrom best es \<in> set (best # es)"
  by (induction es arbitrary: best) auto

lemma bestLeftFrom_le_start: "SetBytes (fst (bestLeftFrom best es)) \<le> SetBytes (fst best)"
proof (induction es arbitrary: best)
  case Nil
  then show ?case by simp
next
  case (Cons e es)
  show ?case
  proof (cases "SetBytes (fst e) < SetBytes (fst best)")
    case True
    with Cons.IH [of e] show ?thesis by simp
  next
    case False
    with Cons.IH [of best] show ?thesis by simp
  qed
qed

lemma bestLeftFrom_least:
  "e \<in> set (best # es) \<Longrightarrow> SetBytes (fst (bestLeftFrom best es)) \<le> SetBytes (fst e)"
proof (induction es arbitrary: best)
  case Nil
  then show ?case by simp
next
  case (Cons x es)
  let ?b = "if SetBytes (fst x) < SetBytes (fst best) then x else best"
  have step: "bestLeftFrom best (x # es) = bestLeftFrom ?b es" by simp
  consider "e = best" | "e = x" | "e \<in> set es" using Cons.prems by auto
  then show ?case
  proof cases
    case 1
    have "SetBytes (fst (bestLeftFrom ?b es)) \<le> SetBytes (fst ?b)" by (rule bestLeftFrom_le_start)
    also have "\<dots> \<le> SetBytes (fst best)" by simp
    finally show ?thesis using 1 step by simp
  next
    case 2
    have "SetBytes (fst (bestLeftFrom ?b es)) \<le> SetBytes (fst ?b)" by (rule bestLeftFrom_le_start)
    also have "\<dots> \<le> SetBytes (fst x)" by simp
    finally show ?thesis using 2 step by simp
  next
    case 3
    then have "e \<in> set (?b # es)" by simp
    from Cons.IH [OF this] step show ?thesis by simp
  qed
qed

lemma bestRightFrom_ge_start: "SetBytes (fst best) \<le> SetBytes (fst (bestRightFrom best es))"
proof (induction es arbitrary: best)
  case Nil
  then show ?case by simp
next
  case (Cons e es)
  show ?case
  proof (cases "SetBytes (fst best) < SetBytes (fst e)")
    case True
    with Cons.IH [of e] show ?thesis by simp
  next
    case False
    with Cons.IH [of best] show ?thesis by simp
  qed
qed

lemma bestRightFrom_greatest:
  "e \<in> set (best # es) \<Longrightarrow> SetBytes (fst e) \<le> SetBytes (fst (bestRightFrom best es))"
proof (induction es arbitrary: best)
  case Nil
  then show ?case by simp
next
  case (Cons x es)
  let ?b = "if SetBytes (fst best) < SetBytes (fst x) then x else best"
  have step: "bestRightFrom best (x # es) = bestRightFrom ?b es" by simp
  consider "e = best" | "e = x" | "e \<in> set es" using Cons.prems by auto
  then show ?case
  proof cases
    case 1
    have "SetBytes (fst best) \<le> SetBytes (fst ?b)" by simp
    also have "\<dots> \<le> SetBytes (fst (bestRightFrom ?b es))" by (rule bestRightFrom_ge_start)
    finally show ?thesis using 1 step by simp
  next
    case 2
    have "SetBytes (fst x) \<le> SetBytes (fst ?b)" by simp
    also have "\<dots> \<le> SetBytes (fst (bestRightFrom ?b es))" by (rule bestRightFrom_ge_start)
    finally show ?thesis using 2 step by simp
  next
    case 3
    then have "e \<in> set (?b # es)" by simp
    from Cons.IH [OF this] step show ?thesis by simp
  qed
qed

text \<open>
  C5. For every trie, \<^verbatim>\<open>TryGetBestLeftKeyAndValue\<close> and \<^verbatim>\<open>TryGetBestRightKeyAndValue\<close>
  return absent if and only if the trie is empty; when the trie is not empty, both
  return entries of the trie, the semantic key of the best-left entry is less than or
  equal to the semantic key of every entry present, and that is less than or equal to
  the semantic key of the best-right entry. (The example after the theorem is the run of
  tomox\_trie\_test.go, with the keys 1 and 2.)
\<close>

theorem best_left_right_bounds:
  "(TryGetBestLeftKeyAndValue t = None \<longleftrightarrow> t = []) \<and>
   (TryGetBestRightKeyAndValue t = None \<longleftrightarrow> t = []) \<and>
   (\<forall>l r. TryGetBestLeftKeyAndValue t = Some l \<and> TryGetBestRightKeyAndValue t = Some r \<longrightarrow>
      l \<in> set t \<and> r \<in> set t \<and>
      (\<forall>e \<in> set t. SetBytes (fst l) \<le> SetBytes (fst e) \<and> SetBytes (fst e) \<le> SetBytes (fst r)))"
proof (cases t)
  case Nil
  then show ?thesis
    by (simp add: TryGetBestLeftKeyAndValue_def TryGetBestRightKeyAndValue_def)
next
  case (Cons x xs)
  have "bestLeftFrom x xs \<in> set (x # xs)" "bestRightFrom x xs \<in> set (x # xs)"
    by (rule bestLeftFrom_mem, rule bestRightFrom_mem)
  moreover have "\<forall>e \<in> set (x # xs). SetBytes (fst (bestLeftFrom x xs)) \<le> SetBytes (fst e) \<and>
      SetBytes (fst e) \<le> SetBytes (fst (bestRightFrom x xs))"
    using bestLeftFrom_least [of _ x xs] bestRightFrom_greatest [of _ x xs] by blast
  moreover have "TryGetBestLeftKeyAndValue t = Some (bestLeftFrom x xs)"
    "TryGetBestRightKeyAndValue t = Some (bestRightFrom x xs)"
    using Cons by (simp_all add: TryGetBestLeftKeyAndValue_def TryGetBestRightKeyAndValue_def)
  ultimately show ?thesis using Cons by auto
qed

theorem best_left_right_bounds_witness:
  "TryGetBestLeftKeyAndValue (TryUpdate [2] [2] (TryUpdate [1] [1] ([] :: Trie))) = Some ([1], [1]) \<and>
   TryGetBestRightKeyAndValue (TryUpdate [2] [2] (TryUpdate [1] [1] ([] :: Trie))) = Some ([2], [2]) \<and>
   ([1], [1]) \<in> set (TryUpdate [2] [2] (TryUpdate [1] [1] ([] :: Trie))) \<and>
   ([2], [2]) \<in> set (TryUpdate [2] [2] (TryUpdate [1] [1] ([] :: Trie))) \<and>
   TryGetBestLeftKeyAndValue (fst (TryDelete [1] (TryUpdate [2] [2] (TryUpdate [1] [1] ([] :: Trie)))))
     = Some ([2], [2]) \<and>
   TryGetBestLeftKeyAndValue (fst (TryDelete [2] (fst (TryDelete [1]
      (TryUpdate [2] [2] (TryUpdate [1] [1] ([] :: Trie))))))) = None"
proof -
  let ?t = "TryUpdate [2] [2] (TryUpdate [1] [1] ([] :: Trie))"
  have t: "?t = [([1], [1]), ([2], [2])]" by simp
  have a: "TryGetBestLeftKeyAndValue ?t = Some ([1], [1])"
    by (simp add: TryGetBestLeftKeyAndValue_def SetBytes_def)
  have b: "TryGetBestRightKeyAndValue ?t = Some ([2], [2])"
    by (simp add: TryGetBestRightKeyAndValue_def SetBytes_def)
  from best_left_right_bounds [of ?t, THEN conjunct2, THEN conjunct2, rule_format, OF conjI, OF a b]
  have c: "([1], [1]) \<in> set ?t" and d: "([2], [2]) \<in> set ?t" by blast+
  have e: "TryGetBestLeftKeyAndValue (fst (TryDelete [1] ?t)) = Some ([2], [2])"
    by (simp add: TryDelete_def TryGetBestLeftKeyAndValue_def)
  have e0: "fst (TryDelete [2] (fst (TryDelete [1] ?t))) = []"
    by (simp add: TryDelete_def)
  have f: "TryGetBestLeftKeyAndValue (fst (TryDelete [2] (fst (TryDelete [1] ?t)))) = None"
    using best_left_right_bounds [of "fst (TryDelete [2] (fst (TryDelete [1] ?t)))"] e0 by blast
  show ?thesis by (intro conjI a b c d e f)
qed

section \<open>Deleting from the ordered trie\<close>

lemma map_of_filter_key:
  "map_of (filter (\<lambda>(k, v). k \<noteq> key) t) k' = (if k' = key then None else map_of t k')"
  by (induction t) auto

lemma filter_absent_key:
  "map_of t key = None \<Longrightarrow> filter (\<lambda>(k, v). k \<noteq> key) t = t"
  by (induction t) (auto split: if_splits)

text \<open>
  C7. For every key, \<^verbatim>\<open>TryDelete\<close> reports no error; after it the key is absent; every
  other key is looked up as before; and when the key was absent the trie is unchanged.
\<close>

theorem delete_removes_only_key:
  "snd (TryDelete key t) = None \<and>
   TryGet (fst (TryDelete key t)) key = None \<and>
   (\<forall>k. k \<noteq> key \<longrightarrow> TryGet (fst (TryDelete key t)) k = TryGet t k) \<and>
   (TryGet t key = None \<longrightarrow> fst (TryDelete key t) = t)"
  by (simp add: TryDelete_def TryGet_def map_of_filter_key filter_absent_key)

theorem delete_removes_only_key_witness:
  "TryGet [([1], [5]), ([2], [3 :: 8 word])] [1] = Some [5] \<and>
   TryGet (fst (TryDelete [1] [([1], [5]), ([2], [3 :: 8 word])])) [1] = None \<and>
   TryGet (fst (TryDelete [1] [([1], [5]), ([2], [3 :: 8 word])])) [2] = TryGet [([1], [5]), ([2], [3])] [2] \<and>
   TryGet [([1], [5]), ([2], [3 :: 8 word])] [7] = None \<and>
   fst (TryDelete [7] [([1], [5]), ([2], [3 :: 8 word])]) = [([1], [5]), ([2], [3])] \<and>
   snd (TryDelete [7] [([1], [5]), ([2], [3 :: 8 word])]) = None"
proof -
  let ?t = "[([1], [5]), ([2], [3])] :: Trie"
  have a: "TryGet ?t [1] = Some [5]" by (simp add: TryGet_def)
  have b: "TryGet (fst (TryDelete [1] ?t)) [1] = None"
    using delete_removes_only_key [of "[1]" ?t] by blast
  have ne: "[2] \<noteq> ([1] :: bytes)" by simp
  have c: "TryGet (fst (TryDelete [1] ?t)) [2] = TryGet ?t [2]"
    using delete_removes_only_key [of "[1]" ?t] ne by blast
  have d: "TryGet ?t [7] = None" by (simp add: TryGet_def)
  have e: "fst (TryDelete [7] ?t) = ?t"
    using delete_removes_only_key [of "[7]" ?t] d by blast
  have f: "snd (TryDelete [7] ?t) = None"
    using delete_removes_only_key [of "[7]" ?t] by blast
  show ?thesis by (intro conjI a b c d e f)
qed

section \<open>The write path and the round trip of a dump\<close>

subsection \<open>keyLess is a strict linear order\<close>

lemma keyLess_irrefl: "\<not> keyLess a a"
  by (induction a) auto

lemma keyLess_trans: "keyLess a b \<Longrightarrow> keyLess b c \<Longrightarrow> keyLess a c"
proof (induction a b arbitrary: c rule: keyLess.induct)
  case 1
  then show ?case by simp
next
  case (2 y ys)
  then show ?case by (cases c) auto
next
  case (3 x xs)
  then show ?case by simp
next
  case (4 x xs y ys)
  then show ?case by (cases c) auto
qed

lemma keyLess_total: "a \<noteq> b \<Longrightarrow> \<not> keyLess a b \<Longrightarrow> keyLess b a"
  by (induction a b rule: keyLess.induct) auto

lemma keyLess_asym: "keyLess a b \<Longrightarrow> \<not> keyLess b a"
  using keyLess_trans [of a b a] keyLess_irrefl [of a] by blast

lemma keyLess_neq: "keyLess a b \<Longrightarrow> a \<noteq> b"
  using keyLess_irrefl by blast

subsection \<open>Trie operations\<close>

lemma TryGet_Nil: "TryGet [] k = None"
  by (simp add: TryGet_def)

lemma TryGet_TryUpdate: "TryGet (TryUpdate k v t) k' = (if k' = k then Some v else TryGet t k')"
  by (induction t) (auto simp: TryGet_def)

lemma set_TryUpdate: "x \<in> set (TryUpdate k v t) \<Longrightarrow> x = (k, v) \<or> x \<in> set t"
  by (induction t) (auto split: if_splits)

lemma TryUpdate_mem: "(k, v) \<in> set (TryUpdate k v t)"
  by (induction t) auto

lemma TryUpdate_not_Nil: "TryUpdate k v t \<noteq> []"
  using TryUpdate_mem [of k v t] by auto

lemma keys_TryUpdate: "fst ` set (TryUpdate k v t) = insert k (fst ` set t)"
proof (induction t)
  case Nil
  then show ?case by simp
next
  case (Cons a t)
  obtain k' v' where a: "a = (k', v')" by (cases a)
  show ?case
  proof (cases "k = k'")
    case True
    with a show ?thesis by simp
  next
    case ne: False
    show ?thesis
    proof (cases "keyLess k k'")
      case True
      with ne a show ?thesis by simp
    next
      case False
      with ne a Cons.IH show ?thesis by auto
    qed
  qed
qed

lemma sorted_TryUpdate:
  "sorted_wrt keyLess (map fst t) \<Longrightarrow> sorted_wrt keyLess (map fst (TryUpdate k v t))"
proof (induction t)
  case Nil
  then show ?case by simp
next
  case (Cons a t)
  obtain k' v' where a: "a = (k', v')" by (cases a)
  from Cons.prems a have rest: "sorted_wrt keyLess (map fst t)"
    and head: "\<forall>x \<in> set t. keyLess k' (fst x)" by auto
  show ?case
  proof (cases "k = k'")
    case True
    with a Cons.prems show ?thesis by auto
  next
    case ne: False
    show ?thesis
    proof (cases "keyLess k k'")
      case True
      with head have "\<forall>x \<in> set t. keyLess k (fst x)" using keyLess_trans by blast
      with True ne a Cons.prems show ?thesis by auto
    next
      case False
      with ne have lt: "keyLess k' k" using keyLess_total by blast
      have "\<forall>x \<in> set (TryUpdate k v t). keyLess k' (fst x)"
      proof
        fix x assume "x \<in> set (TryUpdate k v t)"
        from set_TryUpdate [OF this] lt head show "keyLess k' (fst x)" by auto
      qed
      with False ne a Cons.IH [OF rest] show ?thesis by auto
    qed
  qed
qed

lemma TryUpdate_snoc:
  "\<forall>k' \<in> fst ` set t. keyLess k' k \<Longrightarrow> TryUpdate k v t = t @ [(k, v)]"
proof (induction t)
  case Nil
  then show ?case by simp
next
  case (Cons a t)
  obtain k' v' where a: "a = (k', v')" by (cases a)
  with Cons.prems have lt: "keyLess k' k" by simp
  then have "k \<noteq> k'" "\<not> keyLess k k'" using keyLess_neq keyLess_asym by blast+
  with a Cons show ?case by simp
qed

lemma TryUpdate_last:
  "\<forall>k' \<in> fst ` set t. keyLess k' k \<Longrightarrow> TryUpdate k v (t @ [(k, u)]) = t @ [(k, v)]"
proof (induction t)
  case Nil
  then show ?case by simp
next
  case (Cons a t)
  obtain k' v' where a: "a = (k', v')" by (cases a)
  with Cons.prems have lt: "keyLess k' k" by simp
  then have "k \<noteq> k'" "\<not> keyLess k k'" using keyLess_neq keyLess_asym by blast+
  with a Cons show ?case by simp
qed

lemma TryGet_absent:
  "\<forall>k' \<in> fst ` set t. keyLess k' k \<Longrightarrow> TryGet t k = None"
proof -
  assume "\<forall>k' \<in> fst ` set t. keyLess k' k"
  then have "k \<notin> fst ` set t" using keyLess_irrefl by blast
  then show ?thesis by (simp add: TryGet_def map_of_eq_None_iff)
qed

lemma TryGet_last:
  "\<forall>k' \<in> fst ` set t. keyLess k' k \<Longrightarrow> TryGet (t @ [(k, u)]) k = Some u"
  using TryGet_absent [of t k] by (simp add: TryGet_def map_add_def)

lemma set_TryDelete: "set (fst (TryDelete k t)) = {x \<in> set t. fst x \<noteq> k}"
  by (auto simp: TryDelete_def)

lemma sorted_TryDelete:
  "sorted_wrt keyLess (map fst t) \<Longrightarrow> sorted_wrt keyLess (map fst (fst (TryDelete k t)))"
  by (simp add: TryDelete_def sorted_wrt_map sorted_wrt_filter)

lemma TryGet_map:
  "TryGet (map (\<lambda>(k, v). (k, g k v)) t) k' = map_option (g k') (TryGet t k')"
  by (induction t) (auto simp: TryGet_def)

lemma TryUpdate_map:
  "map (\<lambda>(k, v). (k, g k v)) (TryUpdate k0 v0 t) = TryUpdate k0 (g k0 v0) (map (\<lambda>(k, v). (k, g k v)) t)"
  by (induction t) auto

lemma TryDelete_map:
  "map (\<lambda>(k, v). (k, g k v)) (fst (TryDelete k0 t)) = fst (TryDelete k0 (map (\<lambda>(k, v). (k, g k v)) t))"
  by (induction t) (auto simp: TryDelete_def)

lemma TryGet_mem: "TryGet t k = Some v \<Longrightarrow> (k, v) \<in> set t"
  by (simp add: TryGet_def map_of_SomeD)

lemma TryGet_TryDelete: "TryGet (fst (TryDelete k t)) k = None"
  by (induction t) (auto simp: TryGet_def TryDelete_def)

subsection \<open>Encodings\<close>

lemma SetBytes_from_snoc: "SetBytes_from acc (bs @ [b]) = SetBytes_from acc bs * 256 + uint b"
  by (induction bs arbitrary: acc) simp_all

lemma SetBytes_snoc: "SetBytes (bs @ [b]) = SetBytes bs * 256 + uint b"
  by (simp add: SetBytes_def SetBytes_from_snoc)

lemma length_encodeBE: "length (encodeBE w n) = w"
  by (induction w arbitrary: n) simp_all

lemma length_HashBytes: "length (HashBytes h) = HashLength"
  by (simp add: HashBytes_def length_encodeBE)

lemma uint_byte_of_nat: "uint (of_nat (n mod 256) :: 8 word) = int (n mod 256)"
proof -
  have "unat (of_nat (n mod 256) :: 8 word) = n mod 256"
    by (simp add: unat_of_nat)
  then show ?thesis by (simp only: uint_nat)
qed

lemma encodeBE_SetBytes: "length k = w \<Longrightarrow> encodeBE w (nat (SetBytes k)) = k"
proof (induction w arbitrary: k)
  case 0
  then show ?case by simp
next
  case (Suc w)
  then obtain ks b where k: "k = ks @ [b]" and len: "length ks = w"
    by (cases k rule: rev_cases) auto
  define m where "m = nat (SetBytes ks)"
  have ks: "SetBytes ks = int m" using SetBytes_nonneg [of ks] by (simp add: m_def)
  have "SetBytes k = int m * 256 + int (unat b)"
    unfolding k SetBytes_snoc ks by (simp only: uint_nat)
  also have "\<dots> = int (m * 256 + unat b)" by simp
  finally have n: "nat (SetBytes k) = m * 256 + unat b" by (simp only: nat_int)
  have ubn: "unat b < 256" using unsigned_less [of b, where 'a = nat] by simp
  from ubn have d: "(m * 256 + unat b) div 256 = m" by simp
  from ubn have md: "(m * 256 + unat b) mod 256 = unat b" by simp
  have "encodeBE (Suc w) (nat (SetBytes k)) = encodeBE w m @ [of_nat (unat b)]"
    unfolding n encodeBE.simps d md ..
  also have "encodeBE w m = ks" unfolding m_def by (rule Suc.IH [OF len])
  also have "(of_nat (unat b) :: 8 word) = b" by simp
  finally show ?case unfolding k .
qed

lemma key_roundtrip:
  assumes "length k = HashLength"
  shows "HashBytes (BigToHash (SetBytes k)) = k" and "HashBytes (BytesToHash k) = k"
proof -
  have nn: "0 \<le> SetBytes k" by (rule SetBytes_nonneg)
  have "SetBytes k < 256 ^ 32" using SetBytes_less [of k] assms by (simp add: HashLength_def)
  then have lt: "SetBytes k < 2 ^ LENGTH(256)" by simp
  have "uint (word_of_int (SetBytes k) :: 256 word) = SetBytes k"
    by (rule word_of_int_inverse [OF refl nn lt])
  then have "unat (word_of_int (SetBytes k) :: 256 word) = nat (SetBytes k)"
    by (simp only: unat_eq_nat_uint)
  then have h: "HashBytes (word_of_int (SetBytes k)) = k"
    using encodeBE_SetBytes [of k HashLength] assms by (simp add: HashBytes_def)
  from h nn show "HashBytes (BigToHash (SetBytes k)) = k" by (simp add: BigToHash_def)
  from h show "HashBytes (BytesToHash k) = k" by (simp add: BytesToHash_def)
qed

lemma BytesToHash_inj:
  assumes "length k = HashLength" and "length k' = HashLength"
    and "BytesToHash k = BytesToHash k'"
  shows "k = k'"
proof -
  have "k = HashBytes (BytesToHash k)" by (rule key_roundtrip(2) [OF assms(1), symmetric])
  also have "\<dots> = HashBytes (BytesToHash k')" by (simp only: assms(3))
  also have "\<dots> = k'" by (rule key_roundtrip(2) [OF assms(2)])
  finally show ?thesis .
qed

lemma SetBytes_NatBytes: "SetBytes (NatBytes n) = int n"
proof (induction n rule: NatBytes.induct)
  case (1 n)
  show ?case
  proof (cases "n = 0")
    case True
    then show ?thesis by (subst NatBytes.simps) (simp add: SetBytes_Nil)
  next
    case False
    have "NatBytes n = NatBytes (n div 256) @ [of_nat (n mod 256)]"
      using False by (subst NatBytes.simps) simp
    then have "SetBytes (NatBytes n) = int (n div 256) * 256 + int (n mod 256)"
      using 1 [OF False] by (simp add: SetBytes_snoc uint_byte_of_nat)
    also have "\<dots> = int n" by (simp add: zdiv_int zmod_int)
    finally show ?thesis .
  qed
qed

lemma SetBytes_BigBytes: "SetBytes (BigBytes n) = \<bar>n\<bar>"
  by (simp add: BigBytes_def SetBytes_NatBytes)

lemma HashBytes_inverse: "BytesToHash (HashBytes h) = h"
proof -
  have "SetBytes (encodeBE w n) = int (n mod 256 ^ w)" for w n
  proof (induction w arbitrary: n)
    case 0
    then show ?case by (simp add: SetBytes_Nil)
  next
    case (Suc w)
    have "SetBytes (encodeBE (Suc w) n) = int ((n div 256) mod 256 ^ w) * 256 + int (n mod 256)"
      by (simp add: SetBytes_snoc Suc uint_byte_of_nat)
    also have "\<dots> = int (n mod 256 ^ Suc w)"
      by (simp add: mod_mult2_eq flip: of_nat_mult of_nat_add)
    finally show ?case .
  qed
  then have "SetBytes (HashBytes h) = int (unat h mod 256 ^ HashLength)"
    by (simp only: HashBytes_def)
  moreover have "unat h < 2 ^ LENGTH(256)" by (rule unsigned_less)
  then have "unat h mod 256 ^ HashLength = unat h" by (simp add: HashLength_def)
  ultimately have "SetBytes (HashBytes h) = int (unat h)" by (simp only:)
  then show ?thesis by (simp add: BytesToHash_def)
qed

lemma plainExternals_codec:
  "0 \<le> orderList.Volume d \<Longrightarrow> rlpDecode plainExternals (rlpEncode plainExternals d) = Some d"
  by (simp add: plainExternals_def length_HashBytes SetBytes_BigBytes HashBytes_inverse)

subsection \<open>Queues and levels stay well-formed\<close>

lemma queueVolume_Nil: "queueVolume [] = 0"
  by (simp add: queueVolume_def)

lemma queueVolume_snoc: "queueVolume (q @ [(k, b)]) = queueVolume q + SetBytes b"
  by (simp add: queueVolume_def)

lemma queueVolume_nonneg: "0 \<le> queueVolume q"
  unfolding queueVolume_def
  by (rule sum_list_nonneg) (auto simp: SetBytes_nonneg)

lemma queueVolume_pos:
  "\<forall>(k, b) \<in> set q. 0 < SetBytes b \<Longrightarrow> q \<noteq> [] \<Longrightarrow> 0 < queueVolume q"
proof (induction q)
  case Nil
  then show ?case by simp
next
  case (Cons a q)
  obtain k b where a: "a = (k, b)" by (cases a)
  have "queueVolume (a # q) = SetBytes b + queueVolume q"
    by (simp add: queueVolume_def a)
  moreover have "0 < SetBytes b" using Cons.prems(1) a by simp
  moreover have "0 \<le> queueVolume q" by (rule queueVolume_nonneg)
  ultimately show ?case by linarith
qed

lemma goodQueue_Nil: "goodQueue []"
  by (simp add: goodQueue_def)

lemma goodQueue_volume_pos: "goodQueue q \<Longrightarrow> q \<noteq> [] \<Longrightarrow> 0 < queueVolume q"
  by (rule queueVolume_pos) (auto simp: goodQueue_def)

lemma BigBytes_abs: "BigBytes \<bar>n\<bar> = BigBytes n"
  by (simp add: BigBytes_def)

lemma goodQueue_queueSetOrder:
  assumes "goodQueue q" and "length ik = HashLength"
  shows "goodQueue (queueSetOrder q ik f)"
proof -
  define new where "new = f (case TryGet q ik of None \<Rightarrow> 0 | Some b \<Rightarrow> SetBytes b)"
  show ?thesis
  proof (cases "new \<le> 0")
    case True
    then have q': "queueSetOrder q ik f = fst (TryDelete ik q)"
      by (simp add: queueSetOrder_def new_def Let_def)
    from assms(1) show ?thesis
      unfolding q' goodQueue_def
      by (auto simp: sorted_TryDelete set_TryDelete)
  next
    case False
    then have q': "queueSetOrder q ik f = TryUpdate ik (BigBytes new) q"
      by (simp add: queueSetOrder_def new_def Let_def)
    have s: "sorted_wrt keyLess (map fst (TryUpdate ik (BigBytes new) q))"
      using assms(1) by (simp add: goodQueue_def sorted_TryUpdate)
    have n: "0 < SetBytes (BigBytes new)" "BigBytes (SetBytes (BigBytes new)) = BigBytes new"
      using False by (simp_all add: SetBytes_BigBytes BigBytes_abs)
    have "length k = HashLength \<and> 0 < SetBytes b \<and> BigBytes (SetBytes b) = b"
      if "(k, b) \<in> set (TryUpdate ik (BigBytes new) q)" for k b
      using set_TryUpdate [OF that] assms n by (auto simp: goodQueue_def)
    with s show ?thesis unfolding q' goodQueue_def by blast
  qed
qed

lemma goodLevels_Nil: "goodLevels []"
  by (simp add: goodLevels_def)

lemma goodLevels_queue:
  "goodLevels book \<Longrightarrow> goodQueue (case TryGet book pk of None \<Rightarrow> [] | Some (volume, q) \<Rightarrow> q)"
proof (cases "TryGet book pk")
  case None
  then show ?thesis by (simp add: goodQueue_Nil)
next
  case (Some x)
  assume g: "goodLevels book"
  obtain a q where x: "x = (a, q)" by (cases x)
  from TryGet_mem [OF Some] x have "(pk, (a, q)) \<in> set book" by simp
  with g have "goodQueue q" by (auto simp: goodLevels_def)
  with Some x show ?thesis by simp
qed

lemma goodLevels_levelsSetOrder:
  assumes "goodLevels book" and "length pk = HashLength" and "length ik = HashLength"
  shows "goodLevels (levelsSetOrder book pk ik f)"
proof -
  define queue where "queue = (case TryGet book pk of None \<Rightarrow> [] | Some (volume, q) \<Rightarrow> q)"
  define queue' where "queue' = queueSetOrder queue ik f"
  have gq: "goodQueue queue'"
    unfolding queue'_def queue_def
    by (rule goodQueue_queueSetOrder [OF goodLevels_queue [OF assms(1)] assms(3)])
  show ?thesis
  proof (cases "queueVolume queue' = 0")
    case True
    then have b: "levelsSetOrder book pk ik f = fst (TryDelete pk book)"
      by (simp add: levelsSetOrder_def queue'_def queue_def Let_def)
    from assms(1) show ?thesis
      unfolding b goodLevels_def
      by (auto simp: sorted_TryDelete set_TryDelete)
  next
    case False
    then have b: "levelsSetOrder book pk ik f = TryUpdate pk (queueVolume queue', queue') book"
      by (simp add: levelsSetOrder_def queue'_def queue_def Let_def)
    from False have ne: "queue' \<noteq> []" using queueVolume_Nil by auto
    have s: "sorted_wrt keyLess (map fst (TryUpdate pk (queueVolume queue', queue') book))"
      using assms(1) by (simp add: goodLevels_def sorted_TryUpdate)
    have "length k = HashLength \<and> q \<noteq> [] \<and> a = queueVolume q \<and> goodQueue q"
      if "(k, (a, q)) \<in> set (TryUpdate pk (queueVolume queue', queue') book)" for k a q
      using set_TryUpdate [OF that] assms(1,2) gq ne by (auto simp: goodLevels_def)
    with s show ?thesis unfolding b goodLevels_def by blast
  qed
qed

subsection \<open>Replaying a snapshot of a well-formed book\<close>

lemma replay_one_order:
  assumes P: "\<forall>k' \<in> fst ` set P. keyLess k' k"
    and q: "goodQueue (q1 @ [(ik, b)])"
  shows "levelsSetOrder (if q1 = [] then P else P @ [(k, (queueVolume q1, q1))]) k ik
           (\<lambda>old. old + SetBytes b) =
         P @ [(k, (queueVolume (q1 @ [(ik, b)]), q1 @ [(ik, b)]))]"
proof -
  from q have less: "\<forall>k' \<in> fst ` set q1. keyLess k' ik"
    by (auto simp: goodQueue_def sorted_wrt_append)
  from q have pos: "0 < SetBytes b" and can: "BigBytes (SetBytes b) = b"
    by (auto simp: goodQueue_def)
  have absent: "TryGet q1 ik = None" by (rule TryGet_absent [OF less])
  have qs: "queueSetOrder q1 ik (\<lambda>old. old + SetBytes b) = q1 @ [(ik, b)]"
    using pos by (simp add: queueSetOrder_def absent can TryUpdate_snoc [OF less])
  have "0 \<le> queueVolume q1" by (rule queueVolume_nonneg)
  with pos have vol: "queueVolume (q1 @ [(ik, b)]) \<noteq> 0" by (simp add: queueVolume_snoc)
  show ?thesis
  proof (cases "q1 = []")
    case True
    have "TryGet P k = None" by (rule TryGet_absent [OF P])
    with True qs vol show ?thesis
      by (simp add: levelsSetOrder_def Let_def TryUpdate_snoc [OF P])
  next
    case False
    have "TryGet (P @ [(k, (queueVolume q1, q1))]) k = Some (queueVolume q1, q1)"
      by (rule TryGet_last [OF P])
    with False qs vol show ?thesis
      by (simp add: levelsSetOrder_def Let_def TryUpdate_last [OF P])
  qed
qed

lemma replay_one_level:
  assumes P: "\<forall>k' \<in> fst ` set P. keyLess k' k"
    and k: "length k = HashLength"
    and q: "goodQueue (q1 @ q2)"
  shows "foldl (\<lambda>book (price, orderId, volume).
            levelsSetOrder book (HashBytes (BigToHash price)) (HashBytes (BigToHash orderId))
              (\<lambda>old. old + volume))
           (if q1 = [] then P else P @ [(k, (queueVolume q1, q1))])
           (map (\<lambda>(ik, b). (SetBytes k, SetBytes ik, SetBytes b)) q2) =
         (if q1 @ q2 = [] then P else P @ [(k, (queueVolume (q1 @ q2), q1 @ q2))])"
  using q
proof (induction q2 arbitrary: q1)
  case Nil
  then show ?case by simp
next
  case (Cons x q2)
  obtain ik b where x: "x = (ik, b)" by (cases x)
  from Cons.prems x have g1: "goodQueue (q1 @ [(ik, b)])"
    by (auto simp: goodQueue_def sorted_wrt_append)
  from g1 have ik: "length ik = HashLength" by (auto simp: goodQueue_def)
  have step: "levelsSetOrder (if q1 = [] then P else P @ [(k, (queueVolume q1, q1))])
                (HashBytes (BigToHash (SetBytes k))) (HashBytes (BigToHash (SetBytes ik)))
                (\<lambda>old. old + SetBytes b) =
              P @ [(k, (queueVolume (q1 @ [(ik, b)]), q1 @ [(ik, b)]))]"
    unfolding key_roundtrip(1) [OF k] key_roundtrip(1) [OF ik]
    by (rule replay_one_order [OF P g1])
  from Cons.prems x have g2: "goodQueue ((q1 @ [(ik, b)]) @ q2)" by simp
  from Cons.IH [OF g2] show ?case
    by (simp add: x step)
qed

lemma triples_snapshot_Cons:
  "triples (snapshot ((k, (a, q)) # book)) =
     map (\<lambda>(ik, b). (SetBytes k, SetBytes ik, SetBytes b)) q @ triples (snapshot book)"
  by (simp add: triples_def snapshot_def case_prod_beta comp_def)

lemma replay_levels:
  assumes "goodLevels (P @ book)"
  shows "foldl (\<lambda>book (price, orderId, volume).
            levelsSetOrder book (HashBytes (BigToHash price)) (HashBytes (BigToHash orderId))
              (\<lambda>old. old + volume))
           P (triples (snapshot book)) = P @ book"
  using assms
proof (induction book arbitrary: P)
  case Nil
  then show ?case by (simp add: triples_def snapshot_def)
next
  case (Cons x book)
  obtain k a q where x: "x = (k, (a, q))" by (cases x) auto
  from Cons.prems x have P: "\<forall>k' \<in> fst ` set P. keyLess k' k"
    by (auto simp: goodLevels_def sorted_wrt_append)
  from Cons.prems x have k: "length k = HashLength" and q: "goodQueue q" and ne: "q \<noteq> []"
    and a: "a = queueVolume q"
    by (auto simp: goodLevels_def)
  from replay_one_level [OF P k, of "[]" q] q ne a
  have level: "foldl (\<lambda>book (price, orderId, volume).
            levelsSetOrder book (HashBytes (BigToHash price)) (HashBytes (BigToHash orderId))
              (\<lambda>old. old + volume))
           P (map (\<lambda>(ik, b). (SetBytes k, SetBytes ik, SetBytes b)) q) = P @ [(k, (a, q))]"
    by simp
  from Cons.prems x have "goodLevels ((P @ [(k, (a, q))]) @ book)" by simp
  from Cons.IH [OF this] show ?case
    by (simp add: x triples_snapshot_Cons level)
qed

subsection \<open>The write step on the state and on the book\<close>

lemma map_TryUpdate_agree:
  assumes "sorted_wrt keyLess (map fst t)"
    and "\<forall>(k, v) \<in> set t. k \<noteq> k0 \<longrightarrow> g' k v = g k v"
  shows "map (\<lambda>(k, v). (k, g' k v)) (TryUpdate k0 x t) =
         TryUpdate k0 (g' k0 x) (map (\<lambda>(k, v). (k, g k v)) t)"
  using assms
proof (induction t)
  case Nil
  then show ?case by simp
next
  case (Cons a t)
  obtain k v where a: "a = (k, v)" by (cases a)
  from Cons.prems a have rest: "sorted_wrt keyLess (map fst t)"
    and head: "\<forall>x \<in> set t. keyLess k (fst x)"
    and agree: "\<forall>(k, v) \<in> set t. k \<noteq> k0 \<longrightarrow> g' k v = g k v"
    and agree_head: "k \<noteq> k0 \<longrightarrow> g' k v = g k v"
    by auto
  show ?case
  proof (cases "k0 = k")
    case True
    with head have "\<forall>x \<in> set t. fst x \<noteq> k0" using keyLess_neq by blast
    with agree have "map (\<lambda>(k, v). (k, g' k v)) t = map (\<lambda>(k, v). (k, g k v)) t"
      by (auto simp: case_prod_beta)
    with True a show ?thesis by simp
  next
    case ne: False
    show ?thesis
    proof (cases "keyLess k0 k")
      case True
      with head have "\<forall>x \<in> set t. fst x \<noteq> k0"
        using keyLess_trans keyLess_neq by blast
      with agree have "map (\<lambda>(k, v). (k, g' k v)) t = map (\<lambda>(k, v). (k, g k v)) t"
        by (auto simp: case_prod_beta)
      with True ne a agree_head show ?thesis by simp
    next
      case False
      with ne a agree_head Cons.IH [OF rest agree] show ?thesis by simp
    qed
  qed
qed

lemma map_TryDelete_agree:
  assumes "\<forall>(k, v) \<in> set t. k \<noteq> k0 \<longrightarrow> g' k v = g k v"
  shows "map (\<lambda>(k, v). (k, g' k v)) (fst (TryDelete k0 t)) =
         fst (TryDelete k0 (map (\<lambda>(k, v). (k, g k v)) t))"
  using assms by (induction t) (auto simp: TryDelete_def)

lemma askLevels_keys:
  "map fst (askLevels ext s ob) = map fst (asksTrie (openOrCreate s ob))"
  by (simp add: askLevels_def case_prod_beta comp_def)

lemma askLevels_mem:
  "(k, v) \<in> set (asksTrie (openOrCreate s ob)) \<Longrightarrow>
   (k, (orderList.Volume (the (rlpDecode ext v)),
        orderListTries s Ask ob (BytesToHash k) (the (rlpDecode ext v)))) \<in> set (askLevels ext s ob)"
  by (force simp: askLevels_def)

lemma bookInv_key:
  assumes "bookInv ext ob s" and "(k, v) \<in> set (asksTrie (openOrCreate s ob))"
  shows "length k = HashLength" and "preimages s k = Some k" and "rlpDecode ext v \<noteq> None"
    and "\<forall>(ik, b) \<in> set (orderListTries s Ask ob (BytesToHash k) (the (rlpDecode ext v))).
           preimages s ik = Some ik"
proof -
  note m = askLevels_mem [OF assms(2), of ext]
  from assms(1) have g: "goodLevels (askLevels ext s ob)"
    and r: "\<forall>(k, (volume, queue)) \<in> set (askLevels ext s ob).
         preimages s k = Some k \<and> (\<forall>(ik, b) \<in> set queue. preimages s ik = Some ik)"
    and d: "\<forall>(k, v) \<in> set (asksTrie (openOrCreate s ob)). rlpDecode ext v \<noteq> None"
    by (simp_all add: bookInv_def)
  from g m show "length k = HashLength" unfolding goodLevels_def by fast
  from r m show "preimages s k = Some k" by fast
  from d assms(2) show "rlpDecode ext v \<noteq> None" by fast
  from r m show "\<forall>(ik, b) \<in> set (orderListTries s Ask ob (BytesToHash k) (the (rlpDecode ext v))).
           preimages s ik = Some ik" by fast
qed

lemma setOrder_writeLevel:
  assumes "bookInv ext ob s"
  shows "setOrder ext s ob p i f =
           Inr (writeLevel ext s ob (HashBytes (BigToHash p)) (HashBytes (BigToHash i))
                  (case TryGet (askLevels ext s ob) (HashBytes (BigToHash p)) of
                     None \<Rightarrow> [] | Some (volume, q) \<Rightarrow> q) f)"
proof -
  let ?pk = "HashBytes (BigToHash p)"
  let ?asks = "asksTrie (openOrCreate s ob)"
  have lv: "TryGet (askLevels ext s ob) ?pk =
        map_option (\<lambda>v. (orderList.Volume (the (rlpDecode ext v)),
                          orderListTries s Ask ob (BytesToHash ?pk) (the (rlpDecode ext v))))
          (TryGet ?asks ?pk)"
    unfolding askLevels_def by (rule TryGet_map)
  show ?thesis
  proof (cases "TryGet ?asks ?pk")
    case None
    with lv show ?thesis by (simp add: setOrder_def Let_def)
  next
    case (Some v)
    from TryGet_mem [OF Some] have "(?pk, v) \<in> set ?asks" .
    from bookInv_key(3) [OF assms this] obtain data where "rlpDecode ext v = Some data" by blast
    with Some lv show ?thesis by (simp add: setOrder_def Let_def)
  qed
qed

lemma writeLevel_asks:
  "asksTrie (openOrCreate (writeLevel ext s ob pk ik queue f) ob) =
     (if queueVolume (queueSetOrder queue ik f) = 0
      then fst (TryDelete pk (asksTrie (openOrCreate s ob)))
      else TryUpdate pk
             (rlpEncode ext \<lparr>orderList.Volume = queueVolume (queueSetOrder queue ik f),
                              Root = commitTrie ext (queueSetOrder queue ik f)\<rparr>)
             (asksTrie (openOrCreate s ob)))"
  by (simp add: writeLevel_def openOrCreate_def getStateExchangeObject_def Let_def)

lemma writeLevel_tries:
  "orderListTries (writeLevel ext s ob pk ik queue f) sd ob' price data =
     (if sd = Ask \<and> ob' = ob \<and> price = BytesToHash pk \<and>
         data = \<lparr>orderList.Volume = queueVolume (queueSetOrder queue ik f),
                 Root = commitTrie ext (queueSetOrder queue ik f)\<rparr>
      then queueSetOrder queue ik f else orderListTries s sd ob' price data)"
  by (simp add: writeLevel_def Let_def)

lemma writeLevel_preimages:
  "preimages (writeLevel ext s ob pk ik queue f) =
     (let registry = (if TryGet (queueSetOrder queue ik f) ik = None then preimages s
                      else (preimages s)(ik \<mapsto> ik))
      in if queueVolume (queueSetOrder queue ik f) = 0 then registry else registry(pk \<mapsto> pk))"
  by (simp add: writeLevel_def Let_def)

lemma writeLevel_exists:
  "getStateExchangeObject (writeLevel ext s ob pk ik queue f) ob \<noteq> None"
  by (simp add: writeLevel_def getStateExchangeObject_def Let_def)

lemma askLevels_writeLevel:
  assumes codec: "\<forall>d. 0 \<le> orderList.Volume d \<longrightarrow> rlpDecode ext (rlpEncode ext d) = Some d"
    and inv: "bookInv ext ob s"
    and pk: "length pk = HashLength"
  shows "askLevels ext (writeLevel ext s ob pk ik
            (case TryGet (askLevels ext s ob) pk of None \<Rightarrow> [] | Some (volume, q) \<Rightarrow> q) f) ob =
         levelsSetOrder (askLevels ext s ob) pk ik f"
proof -
  define queue where
    "queue = (case TryGet (askLevels ext s ob) pk of None \<Rightarrow> [] | Some (volume, q) \<Rightarrow> q)"
  define queue' where "queue' = queueSetOrder queue ik f"
  define data' where
    "data' = \<lparr>orderList.Volume = queueVolume queue', Root = commitTrie ext queue'\<rparr>"
  define s' where "s' = writeLevel ext s ob pk ik queue f"
  let ?asks = "asksTrie (openOrCreate s ob)"
  let ?g = "\<lambda>k v. (orderList.Volume (the (rlpDecode ext v)),
                    orderListTries s Ask ob (BytesToHash k) (the (rlpDecode ext v)))"
  let ?g' = "\<lambda>k v. (orderList.Volume (the (rlpDecode ext v)),
                     orderListTries s' Ask ob (BytesToHash k) (the (rlpDecode ext v)))"
  have L: "askLevels ext s ob = map (\<lambda>(k, v). (k, ?g k v)) ?asks"
    by (simp add: askLevels_def)
  have L': "askLevels ext s' ob = map (\<lambda>(k, v). (k, ?g' k v)) (asksTrie (openOrCreate s' ob))"
    by (simp add: askLevels_def)
  have agree1: "?g' k v = ?g k v" if m: "(k, v) \<in> set ?asks" and ne: "k \<noteq> pk" for k v
  proof -
    from bookInv_key(1) [OF inv m] have "length k = HashLength" .
    with pk ne have "BytesToHash k \<noteq> BytesToHash pk" using BytesToHash_inj by blast
    then show ?thesis by (simp add: s'_def writeLevel_tries)
  qed
  then have agree: "\<forall>(k, v) \<in> set ?asks. k \<noteq> pk \<longrightarrow> ?g' k v = ?g k v"
    by blast
  from inv have "goodLevels (askLevels ext s ob)" by (simp add: bookInv_def)
  then have sorted: "sorted_wrt keyLess (map fst ?asks)"
    by (simp add: goodLevels_def askLevels_keys)
  have "0 \<le> orderList.Volume data'" by (simp add: data'_def queueVolume_nonneg)
  with codec have dec: "rlpDecode ext (rlpEncode ext data') = Some data'" by blast
  have t: "orderListTries s' Ask ob (BytesToHash pk) data' = queue'"
    by (simp add: s'_def writeLevel_tries data'_def queue'_def)
  have v: "orderList.Volume data' = queueVolume queue'"
    by (simp add: data'_def)
  have new: "?g' pk (rlpEncode ext data') = (queueVolume queue', queue')"
    by (simp only: dec option.sel t v)
  have asks': "asksTrie (openOrCreate s' ob) =
      (if queueVolume queue' = 0 then fst (TryDelete pk ?asks)
       else TryUpdate pk (rlpEncode ext data') ?asks)"
    by (simp add: s'_def writeLevel_asks queue'_def data'_def)
  have "askLevels ext s' ob = levelsSetOrder (askLevels ext s ob) pk ik f"
  proof (cases "queueVolume queue' = 0")
    case True
    then have "askLevels ext s' ob = map (\<lambda>(k, v). (k, ?g' k v)) (fst (TryDelete pk ?asks))"
      by (simp add: L' asks')
    also have "\<dots> = fst (TryDelete pk (map (\<lambda>(k, v). (k, ?g k v)) ?asks))"
      by (rule map_TryDelete_agree [OF agree])
    also have "\<dots> = levelsSetOrder (askLevels ext s ob) pk ik f"
      using True by (simp add: levelsSetOrder_def Let_def L [symmetric] queue'_def queue_def)
    finally show ?thesis .
  next
    case False
    then have "askLevels ext s' ob =
        map (\<lambda>(k, v). (k, ?g' k v)) (TryUpdate pk (rlpEncode ext data') ?asks)"
      by (simp add: L' asks')
    also have "\<dots> = TryUpdate pk (?g' pk (rlpEncode ext data')) (map (\<lambda>(k, v). (k, ?g k v)) ?asks)"
      by (rule map_TryUpdate_agree [OF sorted agree])
    also have "\<dots> = levelsSetOrder (askLevels ext s ob) pk ik f"
      using False by (simp add: new levelsSetOrder_def Let_def L [symmetric] queue'_def queue_def)
    finally show ?thesis .
  qed
  then show ?thesis by (simp only: s'_def queue_def)
qed

lemma set_queueSetOrder:
  assumes "(k, b) \<in> set (queueSetOrder q ik f)"
  shows "(k, b) \<in> set q \<or> (k = ik \<and> TryGet (queueSetOrder q ik f) ik \<noteq> None)"
proof -
  define new where "new = f (case TryGet q ik of None \<Rightarrow> 0 | Some b \<Rightarrow> SetBytes b)"
  show ?thesis
  proof (cases "new \<le> 0")
    case True
    then have "queueSetOrder q ik f = fst (TryDelete ik q)"
      by (simp add: queueSetOrder_def new_def Let_def)
    with assms show ?thesis by (simp add: set_TryDelete)
  next
    case False
    then have q': "queueSetOrder q ik f = TryUpdate ik (BigBytes new) q"
      by (simp add: queueSetOrder_def new_def Let_def)
    from assms have "(k, b) = (ik, BigBytes new) \<or> (k, b) \<in> set q"
      unfolding q' by (rule set_TryUpdate)
    then show ?thesis by (auto simp: q' TryGet_TryUpdate)
  qed
qed

lemma writeLevel_preimages_mono:
  "preimages s x = Some x \<Longrightarrow> preimages (writeLevel ext s ob pk ik queue f) x = Some x"
  by (auto simp: writeLevel_preimages Let_def)

lemma writeLevel_preimages_price:
  "queueVolume (queueSetOrder queue ik f) \<noteq> 0 \<Longrightarrow>
   preimages (writeLevel ext s ob pk ik queue f) pk = Some pk"
  by (simp add: writeLevel_preimages Let_def)

lemma writeLevel_preimages_order:
  "TryGet (queueSetOrder queue ik f) ik \<noteq> None \<Longrightarrow>
   preimages (writeLevel ext s ob pk ik queue f) ik = Some ik"
  by (auto simp: writeLevel_preimages Let_def)

lemma bookInv_registry:
  assumes "bookInv ext ob s" and "(k, (a, q)) \<in> set (askLevels ext s ob)"
  shows "preimages s k = Some k" and "\<forall>(ik, b) \<in> set q. preimages s ik = Some ik"
  using assms unfolding bookInv_def by fast+

lemma bookInv_writeLevel:
  assumes codec: "\<forall>d. 0 \<le> orderList.Volume d \<longrightarrow> rlpDecode ext (rlpEncode ext d) = Some d"
    and inv: "bookInv ext ob s"
    and pk: "length pk = HashLength" and ik: "length ik = HashLength"
  shows "bookInv ext ob (writeLevel ext s ob pk ik
            (case TryGet (askLevels ext s ob) pk of None \<Rightarrow> [] | Some (volume, q) \<Rightarrow> q) f)"
proof -
  define queue where
    "queue = (case TryGet (askLevels ext s ob) pk of None \<Rightarrow> [] | Some (volume, q) \<Rightarrow> q)"
  define queue' where "queue' = queueSetOrder queue ik f"
  define data' where
    "data' = \<lparr>orderList.Volume = queueVolume queue', Root = commitTrie ext queue'\<rparr>"
  define s' where "s' = writeLevel ext s ob pk ik queue f"
  let ?asks = "asksTrie (openOrCreate s ob)"
  have levels: "askLevels ext s' ob = levelsSetOrder (askLevels ext s ob) pk ik f"
    unfolding s'_def queue_def by (rule askLevels_writeLevel [OF codec inv pk])
  from inv have good: "goodLevels (askLevels ext s ob)" by (simp add: bookInv_def)
  have 1: "getStateExchangeObject s' ob \<noteq> None"
    unfolding s'_def by (rule writeLevel_exists)
  have "0 \<le> orderList.Volume data'" by (simp add: data'_def queueVolume_nonneg)
  with codec have dec: "rlpDecode ext (rlpEncode ext data') \<noteq> None" by simp
  have asks': "asksTrie (openOrCreate s' ob) =
      (if queueVolume queue' = 0 then fst (TryDelete pk ?asks)
       else TryUpdate pk (rlpEncode ext data') ?asks)"
    by (simp add: s'_def writeLevel_asks queue'_def data'_def)
  have 2: "rlpDecode ext v \<noteq> None" if m: "(k, v) \<in> set (asksTrie (openOrCreate s' ob))" for k v
  proof (cases "queueVolume queue' = 0")
    case True
    with m asks' have "(k, v) \<in> set ?asks" by (simp add: set_TryDelete)
    from bookInv_key(3) [OF inv this] show ?thesis .
  next
    case False
    with m asks' have "(k, v) \<in> set (TryUpdate pk (rlpEncode ext data') ?asks)" by simp
    from set_TryUpdate [OF this] show ?thesis
    proof
      assume "(k, v) = (pk, rlpEncode ext data')"
      with dec show ?thesis by simp
    next
      assume "(k, v) \<in> set ?asks"
      from bookInv_key(3) [OF inv this] show ?thesis .
    qed
  qed
  have 3: "goodLevels (askLevels ext s' ob)"
    unfolding levels by (rule goodLevels_levelsSetOrder [OF good pk ik])
  have queue_reg: "preimages s x = Some x" if "(x, b) \<in> set queue" for x b
  proof (cases "TryGet (askLevels ext s ob) pk")
    case None
    with that show ?thesis by (simp add: queue_def)
  next
    case (Some y)
    obtain a q where y: "y = (a, q)" by (cases y)
    from TryGet_mem [OF Some] y have "(pk, (a, q)) \<in> set (askLevels ext s ob)" by simp
    from bookInv_registry(2) [OF inv this] that Some y show ?thesis
      by (auto simp: queue_def)
  qed
  have queue'_reg: "preimages s' x = Some x" if "(x, b) \<in> set queue'" for x b
  proof -
    from that have "(x, b) \<in> set queue \<or> (x = ik \<and> TryGet (queueSetOrder queue ik f) ik \<noteq> None)"
      unfolding queue'_def by (rule set_queueSetOrder)
    then show ?thesis
    proof
      assume "(x, b) \<in> set queue"
      from queue_reg [OF this] show ?thesis
        unfolding s'_def by (rule writeLevel_preimages_mono)
    next
      assume "x = ik \<and> TryGet (queueSetOrder queue ik f) ik \<noteq> None"
      then show ?thesis
        unfolding s'_def using writeLevel_preimages_order [of queue ik f ext s ob pk] by simp
    qed
  qed
  have old_reg: "preimages s' k = Some k \<and> (\<forall>(x, b) \<in> set q. preimages s' x = Some x)"
    if "(k, (a, q)) \<in> set (askLevels ext s ob)" for k a q
  proof -
    from bookInv_registry [OF inv that]
    have "preimages s k = Some k" and "\<forall>(x, b) \<in> set q. preimages s x = Some x" by blast+
    then show ?thesis
      unfolding s'_def using writeLevel_preimages_mono [of s _ ext ob pk ik queue f] by fast
  qed
  have 4: "preimages s' k = Some k \<and> (\<forall>(x, b) \<in> set q. preimages s' x = Some x)"
    if m: "(k, (a, q)) \<in> set (askLevels ext s' ob)" for k a q
  proof (cases "queueVolume queue' = 0")
    case True
    then have "levelsSetOrder (askLevels ext s ob) pk ik f = fst (TryDelete pk (askLevels ext s ob))"
      by (simp add: levelsSetOrder_def Let_def queue'_def queue_def)
    with m levels have "(k, (a, q)) \<in> set (askLevels ext s ob)" by (simp add: set_TryDelete)
    then show ?thesis by (rule old_reg)
  next
    case False
    then have "levelsSetOrder (askLevels ext s ob) pk ik f =
        TryUpdate pk (queueVolume queue', queue') (askLevels ext s ob)"
      by (simp add: levelsSetOrder_def Let_def queue'_def queue_def)
    with m levels have "(k, (a, q)) \<in> set (TryUpdate pk (queueVolume queue', queue') (askLevels ext s ob))"
      by simp
    from set_TryUpdate [OF this] show ?thesis
    proof
      assume "(k, (a, q)) = (pk, (queueVolume queue', queue'))"
      then have k: "k = pk" and q: "q = queue'" by simp_all
      from False have "preimages s' pk = Some pk"
        unfolding s'_def queue'_def by (rule writeLevel_preimages_price)
      with k q queue'_reg show ?thesis by fast
    next
      assume "(k, (a, q)) \<in> set (askLevels ext s ob)"
      then show ?thesis by (rule old_reg)
    qed
  qed
  from 1 2 3 4 have "bookInv ext ob s'" unfolding bookInv_def by fast
  then show ?thesis by (simp only: s'_def queue_def)
qed

lemma setOrder_step:
  assumes codec: "\<forall>d. 0 \<le> orderList.Volume d \<longrightarrow> rlpDecode ext (rlpEncode ext d) = Some d"
    and inv: "bookInv ext ob s"
  shows "\<exists>s'. setOrder ext s ob p i f = Inr s' \<and> bookInv ext ob s' \<and>
           askLevels ext s' ob =
             levelsSetOrder (askLevels ext s ob) (HashBytes (BigToHash p)) (HashBytes (BigToHash i)) f"
  using setOrder_writeLevel [OF inv, of p i f]
    bookInv_writeLevel [OF codec inv length_HashBytes length_HashBytes, of "BigToHash p" "BigToHash i" f]
    askLevels_writeLevel [OF codec inv length_HashBytes, of "BigToHash p" "HashBytes (BigToHash i)" f]
  by simp

lemma applyOps_inv:
  assumes codec: "\<forall>d. 0 \<le> orderList.Volume d \<longrightarrow> rlpDecode ext (rlpEncode ext d) = Some d"
  shows "bookInv ext ob s \<Longrightarrow> \<exists>s'. applyOps ext ob ops s = Inr s' \<and> bookInv ext ob s'"
proof (induction ops arbitrary: s)
  case Nil
  then show ?case by simp
next
  case (Cons op ops)
  show ?case
  proof (cases op)
    case (UpsertOrder p i d)
    from setOrder_step [OF codec Cons.prems, of p i "\<lambda>old. old + d"]
    obtain s1 where "upsertOrder ext s ob p i d = Inr s1" and "bookInv ext ob s1"
      by (auto simp: upsertOrder_def)
    with Cons.IH [of s1] UpsertOrder show ?thesis by simp
  next
    case (RemoveOrder p i)
    from setOrder_step [OF codec Cons.prems, of p i "\<lambda>old. 0"]
    obtain s1 where "removeOrder ext s ob p i = Inr s1" and "bookInv ext ob s1"
      by (auto simp: removeOrder_def)
    with Cons.IH [of s1] RemoveOrder show ?thesis by simp
  qed
qed

lemma applyOps_upserts:
  assumes codec: "\<forall>d. 0 \<le> orderList.Volume d \<longrightarrow> rlpDecode ext (rlpEncode ext d) = Some d"
  shows "bookInv ext ob s \<Longrightarrow>
    \<exists>s'. applyOps ext ob (map (\<lambda>(price, orderId, volume). UpsertOrder price orderId volume) ts) s
            = Inr s' \<and> bookInv ext ob s' \<and>
          askLevels ext s' ob =
            foldl (\<lambda>book (price, orderId, volume).
                levelsSetOrder book (HashBytes (BigToHash price)) (HashBytes (BigToHash orderId))
                  (\<lambda>old. old + volume))
              (askLevels ext s ob) ts"
proof (induction ts arbitrary: s)
  case Nil
  then show ?case by simp
next
  case (Cons t ts)
  obtain p i d where t: "t = (p, i, d)" by (cases t)
  from setOrder_step [OF codec Cons.prems, of p i "\<lambda>old. old + d"]
  obtain s1 where 1: "upsertOrder ext s ob p i d = Inr s1" and 2: "bookInv ext ob s1"
    and 3: "askLevels ext s1 ob =
       levelsSetOrder (askLevels ext s ob) (HashBytes (BigToHash p)) (HashBytes (BigToHash i))
         (\<lambda>old. old + d)"
    by (auto simp: upsertOrder_def)
  from Cons.IH [OF 2] 1 3 t show ?case by simp
qed

lemma freshBook_inv: "bookInv ext ob (freshBook ob)"
  by (simp add: bookInv_def freshBook_def askLevels_def openOrCreate_def
      getStateExchangeObject_def goodLevels_def)

lemma freshBook_levels: "askLevels ext (freshBook ob) ob = []"
  by (simp add: freshBook_def askLevels_def openOrCreate_def getStateExchangeObject_def)

lemma bookInv_dump:
  assumes inv: "bookInv ext ob s"
  shows "DumpAskTrie (rlpDecode ext) s ob = Inr (snapshot (askLevels ext s ob))"
proof -
  from inv obtain e where e: "getStateExchangeObject s ob = Some e"
    by (auto simp: bookInv_def)
  then have oc: "openOrCreate s ob = e" by (simp add: openOrCreate_def)
  let ?asks = "asksTrie e"
  have dec: "\<forall>(k, v) \<in> set ?asks. rlpDecode ext v \<noteq> None"
    using bookInv_key(3) [OF inv] oc by auto
  have entry: "(SetBytes (GetKey s k),
        \<lparr>Volume = orderList.Volume (the (rlpDecode ext v)),
         Orders = dumpOrders s
           (orderListTries s Ask ob (BytesToHash (GetKey s k)) (the (rlpDecode ext v))) []\<rparr>) =
      (SetBytes k,
        \<lparr>Volume = orderList.Volume (the (rlpDecode ext v)),
         Orders = map (\<lambda>(ik, b). (SetBytes ik, SetBytes b))
           (orderListTries s Ask ob (BytesToHash k) (the (rlpDecode ext v)))\<rparr>)"
    if m: "(k, v) \<in> set ?asks" for k v
  proof -
    from m oc have m': "(k, v) \<in> set (asksTrie (openOrCreate s ob))" by simp
    from bookInv_key(2) [OF inv m'] have g: "GetKey s k = k" by (simp add: GetKey_def)
    let ?q = "orderListTries s Ask ob (BytesToHash k) (the (rlpDecode ext v))"
    from bookInv_key(4) [OF inv m'] have "\<forall>(ik, b) \<in> set ?q. GetKey s ik = ik"
      by (auto simp: GetKey_def)
    then have "map (\<lambda>(ik, b). (SetBytes (GetKey s ik), SetBytes b)) ?q =
               map (\<lambda>(ik, b). (SetBytes ik, SetBytes b)) ?q"
      by (auto simp: case_prod_beta)
    then show ?thesis by (simp add: g dumpOrders_eq)
  qed
  have "DumpAskTrie (rlpDecode ext) s ob = dumpLoop (rlpDecode ext) s Ask ob ?asks []"
    using e by (simp add: DumpAskTrie_def)
  also have "\<dots> = Inr (map (\<lambda>(k, v). (SetBytes (GetKey s k),
        \<lparr>Volume = orderList.Volume (the (rlpDecode ext v)),
         Orders = dumpOrders s
           (orderListTries s Ask ob (BytesToHash (GetKey s k)) (the (rlpDecode ext v))) []\<rparr>)) ?asks)"
    using dumpLoop_all_decode [OF dec, of s Ask ob "[]"] by simp
  also have "\<dots> = Inr (snapshot (askLevels ext s ob))"
    using entry by (auto simp: snapshot_def askLevels_def oc case_prod_beta comp_def)
  finally show ?thesis .
qed

subsection \<open>Reachable ask books are dumped in ascending order\<close>

text \<open>
  Every state that the write path reaches meets the conditions of
  \<open>dumpLoop_ascending\<close>: the ask trie and the order-list tries that the dump opens
  iterate in ascending order, and no stored key misses its preimage. So
  \<^verbatim>\<open>DumpAskTrie\<close> produces its entries in ascending numeric order on each of them; the
  order is lost only with the registry.
\<close>

lemma fixed_width_iterates:
  assumes "sorted_wrt keyLess (map fst t)" and "\<forall>x \<in> set t. length (fst x) = n"
  shows "iteratesAscending t"
proof -
  have "sorted_wrt (\<lambda>x y. SetBytes (fst x) < SetBytes (fst y)) t"
  proof (rule sorted_wrt_mono_rel [where P = "\<lambda>x y. keyLess (fst x) (fst y)"])
    fix x y assume "x \<in> set t" and "y \<in> set t" and l: "keyLess (fst x) (fst y)"
    with assms(2) have "length (fst x) = length (fst y)" by simp
    from keyLess_iff_SetBytes_less [OF this] l show "SetBytes (fst x) < SetBytes (fst y)"
      by blast
  next
    from assms(1) show "sorted_wrt (\<lambda>x y. keyLess (fst x) (fst y)) t"
      by (simp only: sorted_wrt_map)
  qed
  then show ?thesis by (simp only: iteratesAscending_def sorted_wrt_map)
qed

lemma goodQueue_iterates: "goodQueue q \<Longrightarrow> iteratesAscending q"
  by (rule fixed_width_iterates [where n = HashLength]) (auto simp: goodQueue_def)

lemma registered_resolves:
  assumes "\<forall>(k, v) \<in> set t. preimages s k = Some k"
  shows "resolvesKeys s t"
  using assms unfolding resolvesKeys_def by fastforce

lemma bookInv_ascending:
  assumes inv: "bookInv ext ob s"
  shows "iteratesAscending (asksTrie (openOrCreate s ob))"
    and "resolvesKeys s (asksTrie (openOrCreate s ob))"
    and "\<forall>q \<in> set (openedTries (rlpDecode ext) s Ask ob (asksTrie (openOrCreate s ob))).
           iteratesAscending q \<and> resolvesKeys s q"
proof -
  let ?asks = "asksTrie (openOrCreate s ob)"
  from inv have good: "goodLevels (askLevels ext s ob)" by (simp add: bookInv_def)
  then have "sorted_wrt keyLess (map fst ?asks)"
    by (simp add: goodLevels_def askLevels_keys)
  moreover have "\<forall>x \<in> set ?asks. length (fst x) = HashLength"
    using bookInv_key(1) [OF inv] by auto
  ultimately show "iteratesAscending ?asks" by (rule fixed_width_iterates)
  show "resolvesKeys s ?asks"
    by (rule registered_resolves) (use bookInv_key(2) [OF inv] in auto)
  show "\<forall>q \<in> set (openedTries (rlpDecode ext) s Ask ob ?asks).
           iteratesAscending q \<and> resolvesKeys s q"
  proof
    fix q assume "q \<in> set (openedTries (rlpDecode ext) s Ask ob ?asks)"
    then obtain k v where m: "(k, v) \<in> set ?asks"
      and q: "q = orderListTries s Ask ob (BytesToHash (GetKey s k)) (the (rlpDecode ext v))"
      by (auto simp: openedTries_def)
    from bookInv_key(2) [OF inv m] have "GetKey s k = k" by (simp add: GetKey_def)
    with q have q': "q = orderListTries s Ask ob (BytesToHash k) (the (rlpDecode ext v))"
      by simp
    from askLevels_mem [OF m, of ext] good q' have "goodQueue q"
      unfolding goodLevels_def by fast
    then have 1: "iteratesAscending q" by (rule goodQueue_iterates)
    from bookInv_key(4) [OF inv m] q' have 2: "resolvesKeys s q"
      by (intro registered_resolves) simp
    from 1 2 show "iteratesAscending q \<and> resolvesKeys s q" ..
  qed
qed

lemma reachable_dump_ascending:
  assumes codec: "\<forall>d. 0 \<le> orderList.Volume d \<longrightarrow> rlpDecode ext (rlpEncode ext d) = Some d"
  shows "\<exists>self snap. applyOps ext orderBook ops (freshBook orderBook) = Inr self \<and>
           DumpAskTrie (rlpDecode ext) self orderBook = Inr snap \<and> ascendingDump snap"
proof -
  from applyOps_inv [OF codec freshBook_inv, of orderBook ops]
  obtain self where reach: "applyOps ext orderBook ops (freshBook orderBook) = Inr self"
    and inv: "bookInv ext orderBook self" by blast
  from inv obtain e where e: "getStateExchangeObject self orderBook = Some e"
    by (auto simp: bookInv_def)
  then have oc: "openOrCreate self orderBook = e" by (simp add: openOrCreate_def)
  have dec: "\<forall>(k, v) \<in> set (asksTrie e). rlpDecode ext v \<noteq> None"
    using bookInv_key(3) [OF inv] oc by auto
  from dumpLoop_succeeds [OF dec] obtain snap
    where run: "dumpLoop (rlpDecode ext) self Ask orderBook (asksTrie e) [] = Inr snap" by blast
  from bookInv_ascending [OF inv] oc
  have "ascendingDump snap" by (intro dumpLoop_ascending [OF run]) simp_all
  moreover from run e have "DumpAskTrie (rlpDecode ext) self orderBook = Inr snap"
    by (simp add: DumpAskTrie_def)
  ultimately show ?thesis using reach by blast
qed

subsection \<open>The scenario of the spec (8)\<close>

lemma SetBytes_HashBytes: "SetBytes (HashBytes h) = uint h"
proof -
  have "word_of_int (SetBytes (HashBytes h)) = h"
    using HashBytes_inverse [of h] by (simp add: BytesToHash_def)
  moreover have "0 \<le> SetBytes (HashBytes h)" by (rule SetBytes_nonneg)
  moreover have "SetBytes (HashBytes h) < 2 ^ LENGTH(256)"
    using SetBytes_less [of "HashBytes h"] by (simp add: length_HashBytes HashLength_def)
  ultimately show ?thesis by (rule word_of_int_inverse [symmetric])
qed

lemma SetBytes_key:
  assumes "0 \<le> n" and "n < 2 ^ 256"
  shows "SetBytes (HashBytes (BigToHash n)) = n"
proof -
  from assms have "uint (word_of_int n :: 256 word) = n"
    by (intro word_of_int_inverse [OF refl]) simp_all
  with assms(1) show ?thesis by (simp add: SetBytes_HashBytes BigToHash_def)
qed

lemma keyLess_key:
  assumes "0 \<le> a" "a < 2 ^ 256" "0 \<le> b" "b < 2 ^ 256"
  shows "keyLess (HashBytes (BigToHash a)) (HashBytes (BigToHash b)) \<longleftrightarrow> a < b"
  using keyLess_iff_SetBytes_less [of "HashBytes (BigToHash a)" "HashBytes (BigToHash b)"]
  unfolding SetBytes_key [OF assms(1,2)] SetBytes_key [OF assms(3,4)]
  by (simp add: length_HashBytes)

lemma key_eq_iff:
  assumes "0 \<le> a" "a < 2 ^ 256" "0 \<le> b" "b < 2 ^ 256"
  shows "HashBytes (BigToHash a) = HashBytes (BigToHash b) \<longleftrightarrow> a = b"
  using SetBytes_key [OF assms(1,2)] SetBytes_key [OF assms(3,4)] by metis

lemma scenario_levels:
  "foldl (\<lambda>book (price, orderId, volume).
       levelsSetOrder book (HashBytes (BigToHash price)) (HashBytes (BigToHash orderId))
         (\<lambda>old. old + volume))
     [] [(100, 1, 5), (100, 2, 3), (90, 3, 10)] =
   [(HashBytes (BigToHash 90), (10, [(HashBytes (BigToHash 3), BigBytes 10)])),
    (HashBytes (BigToHash 100),
       (8, [(HashBytes (BigToHash 1), BigBytes 5), (HashBytes (BigToHash 2), BigBytes 3)]))]"
  by (simp add: levelsSetOrder_def queueSetOrder_def TryGet_def TryDelete_def queueVolume_def
      SetBytes_BigBytes key_eq_iff keyLess_key Let_def)

lemma scenario_snapshot:
  "snapshot
     [(HashBytes (BigToHash 90), (10, [(HashBytes (BigToHash 3), BigBytes 10)])),
      (HashBytes (BigToHash 100),
         (8, [(HashBytes (BigToHash 1), BigBytes 5), (HashBytes (BigToHash 2), BigBytes 3)]))] =
   [(90, \<lparr>Volume = 10, Orders = [(3, 10)]\<rparr>),
    (100, \<lparr>Volume = 8, Orders = [(1, 5), (2, 3)]\<rparr>)]"
  by (simp add: snapshot_def SetBytes_key SetBytes_BigBytes)

text \<open>
  C6. Round trip. Take external operations such that a price-level value with a
  non-negative volume decodes to what was encoded. Then every sequence of \<^verbatim>\<open>upsertOrder\<close>
  and \<^verbatim>\<open>removeOrder\<close> calls on the freshly initialised ask book succeeds; \<^verbatim>\<open>DumpAskTrie\<close>
  of the state it reaches returns a snapshot; replaying every \<open>(price, orderId, volume)\<close>
  triple of that snapshot through \<^verbatim>\<open>upsertOrder\<close> into a fresh empty ask book succeeds;
  and \<^verbatim>\<open>DumpAskTrie\<close> of the book so obtained returns the same snapshot. (The example
  after the theorem is the scenario of the spec: orders 1 and 2 at price 100, order 3 at
  price 90.)
\<close>

theorem dump_replay_roundtrip:
  assumes codec: "\<forall>d. 0 \<le> orderList.Volume d \<longrightarrow> rlpDecode ext (rlpEncode ext d) = Some d"
  shows "\<exists>self snap self'.
           applyOps ext orderBook ops (freshBook orderBook) = Inr self \<and>
           DumpAskTrie (rlpDecode ext) self orderBook = Inr snap \<and>
           replay ext orderBook snap = Inr self' \<and>
           DumpAskTrie (rlpDecode ext) self' orderBook = Inr snap"
proof -
  from applyOps_inv [OF codec freshBook_inv, of orderBook ops]
  obtain self where reach: "applyOps ext orderBook ops (freshBook orderBook) = Inr self"
    and inv: "bookInv ext orderBook self" by blast
  let ?book = "askLevels ext self orderBook"
  have d: "DumpAskTrie (rlpDecode ext) self orderBook = Inr (snapshot ?book)"
    by (rule bookInv_dump [OF inv])
  from inv have "goodLevels ([] @ ?book)" by (simp add: bookInv_def)
  note again = replay_levels [OF this]
  from applyOps_upserts [OF codec freshBook_inv, of orderBook "triples (snapshot ?book)"]
  obtain self' where r: "replay ext orderBook (snapshot ?book) = Inr self'"
    and inv': "bookInv ext orderBook self'"
    and l: "askLevels ext self' orderBook = ?book"
    using again by (auto simp: replay_def freshBook_levels)
  from bookInv_dump [OF inv'] l
  have "DumpAskTrie (rlpDecode ext) self' orderBook = Inr (snapshot ?book)" by simp
  with reach d r show ?thesis by blast
qed

theorem dump_replay_roundtrip_witness:
  "\<exists>self self'.
     applyOps plainExternals 1 [UpsertOrder 100 1 5, UpsertOrder 100 2 3, UpsertOrder 90 3 10]
       (freshBook 1) = Inr self \<and>
     DumpAskTrie (rlpDecode plainExternals) self 1 =
       Inr [(90, \<lparr>Volume = 10, Orders = [(3, 10)]\<rparr>),
            (100, \<lparr>Volume = 8, Orders = [(1, 5), (2, 3)]\<rparr>)] \<and>
     replay plainExternals 1
       [(90, \<lparr>Volume = 10, Orders = [(3, 10)]\<rparr>),
        (100, \<lparr>Volume = 8, Orders = [(1, 5), (2, 3)]\<rparr>)] = Inr self' \<and>
     DumpAskTrie (rlpDecode plainExternals) self' 1 =
       Inr [(90, \<lparr>Volume = 10, Orders = [(3, 10)]\<rparr>),
            (100, \<lparr>Volume = 8, Orders = [(1, 5), (2, 3)]\<rparr>)]"
proof -
  let ?ops = "[UpsertOrder 100 1 5, UpsertOrder 100 2 3, UpsertOrder 90 3 10]"
  have codec: "\<forall>d. 0 \<le> orderList.Volume d \<longrightarrow>
      rlpDecode plainExternals (rlpEncode plainExternals d) = Some d"
    using plainExternals_codec by blast
  from dump_replay_roundtrip [OF codec, of 1 ?ops]
  obtain self snap self' where r: "applyOps plainExternals 1 ?ops (freshBook 1) = Inr self"
    and d: "DumpAskTrie (rlpDecode plainExternals) self 1 = Inr snap"
    and p: "replay plainExternals 1 snap = Inr self'"
    and d': "DumpAskTrie (rlpDecode plainExternals) self' 1 = Inr snap"
    by blast
  from applyOps_upserts [OF codec freshBook_inv,
      of 1 "[(100, 1, 5), (100, 2, 3), (90, 3, 10)]"] r
  have inv: "bookInv plainExternals 1 self"
    and l: "askLevels plainExternals self 1 =
      [(HashBytes (BigToHash 90), (10, [(HashBytes (BigToHash 3), BigBytes 10)])),
       (HashBytes (BigToHash 100),
         (8, [(HashBytes (BigToHash 1), BigBytes 5), (HashBytes (BigToHash 2), BigBytes 3)]))]"
    unfolding freshBook_levels scenario_levels by auto
  have "DumpAskTrie (rlpDecode plainExternals) self 1 =
       Inr [(90, \<lparr>Volume = 10, Orders = [(3, 10)]\<rparr>),
            (100, \<lparr>Volume = 8, Orders = [(1, 5), (2, 3)]\<rparr>)]"
    using bookInv_dump [OF inv] by (simp only: l scenario_snapshot)
  with d have "snap = [(90, \<lparr>Volume = 10, Orders = [(3, 10)]\<rparr>),
            (100, \<lparr>Volume = 8, Orders = [(1, 5), (2, 3)]\<rparr>)]" by simp
  with r d p d' show ?thesis by blast
qed

section \<open>The light-client order entry points\<close>

text \<open>
  C10. On the light-client backend, \<^verbatim>\<open>SendOrderTx\<close> returns nil for every input and leaves
  the backend as it was (the order transaction is forwarded nowhere), and
  \<^verbatim>\<open>GetOrderNonce\<close> returns nonce 0 together with the error "cannot find tomox service"
  for every input.
\<close>

theorem les_order_entry_points_are_stubs:
  "LesApiBackend_SendOrderTx b ctx signedTx = (None, b) \<and>
   LesApiBackend_GetOrderNonce b address = (0, Some ''cannot find tomox service'')"
  by (simp add: LesApiBackend_SendOrderTx_def LesApiBackend_GetOrderNonce_def)

end
